theory Spec2Isabelle
  imports Main "HOL-Library.Word" "HOL-Library.FSet"
begin

section \<open>The transaction mempool of \<open>mempool/mempool.go\<close>\<close>

subsection \<open>Items\<close>

text \<open>
  The mempool is generic in \<open>T Item\<close>; the only methods it calls on an item are
  \<open>ID()\<close> (an \<open>ids.ID\<close>, 32 bytes), \<open>Payer()\<close> (a string), \<open>UnitPrice()\<close>
  (a \<open>uint64\<close>) and \<open>Expiry()\<close> (an \<open>int64\<close>). An item is modelled by the record
  of these four values. The \<open>int64\<close> is kept as its 64-bit pattern: \<open>sint\<close> reads
  the signed value, and the conversion \<open>uint64(x)\<close> keeps the pattern.
\<close>

type_synonym ID = "256 word"
type_synonym uint64 = "64 word"
type_synonym int64 = "64 word"

record Item =
  ID :: ID
  Payer :: string
  UnitPrice :: uint64
  Expiry :: int64

text \<open>The zero value of the element type, which Go returns beside \<open>ok = false\<close>.\<close>

definition zeroItem :: Item where
  "zeroItem = \<lparr>ID = 0, Payer = [], UnitPrice = 0, Expiry = 0\<rparr>"

text \<open>\<open>uint64(item.Expiry())\<close> and \<open>uint64(t)\<close>: the same 64 bits, read unsigned.\<close>

definition uint64_of_int64 :: "int64 \<Rightarrow> uint64" where
  "uint64_of_int64 x = x"

subsection \<open>The sorted mempool (indexed priority queue)\<close>

text \<open>
  Modelled from the spec: the type \<open>SortedMempool\<close> and its methods (\<open>Add\<close>,
  \<open>Remove\<close>, \<open>Has\<close>, \<open>Len\<close>, \<open>PeekMin\<close>, \<open>PeekMax\<close>, \<open>PopMin\<close>, \<open>PopMax\<close>,
  \<open>SetMinVal\<close>) are used by \<open>mempool.go\<close> but their file is not among the sources.
  The specification (section 4.1) describes an indexed priority queue: entries
  \<open>{item, score}\<close> with the score read once at admission, membership by id, removal by
  id that is a no-op when the id is absent, peek and pop of the extremum with an "empty"
  answer on an empty queue, and \<open>set_min_val\<close> that repeatedly pops the minimum while
  its score is below the threshold. The heap layout is abstracted to the list of
  entries in admission order; among entries of equal score the specification leaves the
  order open, and the model takes the earliest admitted. Adding an id that is already
  present is undefined in the specification ("caller guarantees uniqueness"); the model
  appends there as well, and removal by id removes every entry carrying the id, which is
  removal of the one entry whenever ids are unique.
\<close>

record Entry =
  item :: Item
  score :: uint64

type_synonym SortedMempool = "Entry list"

definition NewSortedMempool :: SortedMempool where
  "NewSortedMempool = []"

definition sm_ids :: "SortedMempool \<Rightarrow> ID set" where
  "sm_ids sm = set (map (\<lambda>e. ID (item e)) sm)"

definition sm_Add :: "(Item \<Rightarrow> uint64) \<Rightarrow> Item \<Rightarrow> SortedMempool \<Rightarrow> SortedMempool" where
  "sm_Add getValue x sm = sm @ [\<lparr>item = x, score = getValue x\<rparr>]"

definition sm_Has :: "SortedMempool \<Rightarrow> ID \<Rightarrow> bool" where
  "sm_Has sm i = (i \<in> sm_ids sm)"

definition sm_Remove :: "ID \<Rightarrow> SortedMempool \<Rightarrow> SortedMempool" where
  "sm_Remove i sm = filter (\<lambda>e. ID (item e) \<noteq> i) sm"

definition sm_Len :: "SortedMempool \<Rightarrow> int" where
  "sm_Len sm = int (length sm)"

text \<open>The entry a scan keeps: \<open>better\<close> says when a later entry replaces the best so far.\<close>

fun extreme :: "(uint64 \<Rightarrow> uint64 \<Rightarrow> bool) \<Rightarrow> Entry \<Rightarrow> Entry list \<Rightarrow> Entry" where
  "extreme better b [] = b"
| "extreme better b (e # es) =
     extreme better (if better (score e) (score b) then e else b) es"

definition sm_min :: "Entry \<Rightarrow> Entry list \<Rightarrow> Entry" where
  "sm_min b es = extreme (\<lambda>x y. x < y) b es"

definition sm_max :: "Entry \<Rightarrow> Entry list \<Rightarrow> Entry" where
  "sm_max b es = extreme (\<lambda>x y. y < x) b es"

definition sm_PeekMin :: "SortedMempool \<Rightarrow> Item \<times> bool" where
  "sm_PeekMin sm = (case sm of [] \<Rightarrow> (zeroItem, False) | e # es \<Rightarrow> (item (sm_min e es), True))"

definition sm_PeekMax :: "SortedMempool \<Rightarrow> Item \<times> bool" where
  "sm_PeekMax sm = (case sm of [] \<Rightarrow> (zeroItem, False) | e # es \<Rightarrow> (item (sm_max e es), True))"

text \<open>A pop returns the item, the flag and the queue that is left.\<close>

definition sm_PopMin :: "SortedMempool \<Rightarrow> Item \<times> bool \<times> SortedMempool" where
  "sm_PopMin sm =
     (case sm of
        [] \<Rightarrow> (zeroItem, False, sm)
      | e # es \<Rightarrow> (let m = sm_min e es in (item m, True, sm_Remove (ID (item m)) sm)))"

definition sm_PopMax :: "SortedMempool \<Rightarrow> Item \<times> bool \<times> SortedMempool" where
  "sm_PopMax sm =
     (case sm of
        [] \<Rightarrow> (zeroItem, False, sm)
      | e # es \<Rightarrow> (let m = sm_max e es in (item m, True, sm_Remove (ID (item m)) sm)))"

subsection \<open>The mempool\<close>

text \<open>
  The struct \<open>Mempool[T]\<close> without its tracer, metrics and lock. \<open>owned\<close> is the Go map
  from payer to the set of its item ids; \<open>leasedItems\<close> is \<open>None\<close> for the nil set.
\<close>

record Mempool =
  maxSize :: int
  maxPayerSize :: int
  pm :: SortedMempool
  tm :: SortedMempool
  owned :: "string \<rightharpoonup> ID fset"
  exemptPayers :: "string fset"
  leasedItems :: "ID fset option"

text \<open>
  \<open>New\<close>: both queues empty, the price queue scored by \<open>UnitPrice\<close> and the time queue
  by \<open>uint64(Expiry)\<close>. The source asks for \<open>maxSize > 0\<close> ("or else the implementation
  may panic"); the metrics registry it also returns is left out.
\<close>

definition pmValue :: "Item \<Rightarrow> uint64" where
  "pmValue x = UnitPrice x"

definition tmValue :: "Item \<Rightarrow> uint64" where
  "tmValue x = uint64_of_int64 (Expiry x)"

definition New :: "int \<Rightarrow> int \<Rightarrow> string list \<Rightarrow> Mempool" where
  "New maxSz maxPayerSz exempt =
     \<lparr>maxSize = maxSz, maxPayerSize = maxPayerSz,
      pm = NewSortedMempool, tm = NewSortedMempool,
      owned = Map.empty, exemptPayers = fset_of_list exempt, leasedItems = None\<rparr>"

definition removeFromOwned :: "Mempool \<Rightarrow> Item \<Rightarrow> Mempool" where
  "removeFromOwned th x =
     (let sender = Payer x in
      case owned th sender of
        None \<Rightarrow> th
      | Some acct \<Rightarrow>
          (let acct' = acct |-| {|ID x|} in
           if fcard acct' = 0 then th\<lparr>owned := (owned th)(sender := None)\<rparr>
           else th\<lparr>owned := (owned th)(sender \<mapsto> acct')\<rparr>))"

definition Has :: "Mempool \<Rightarrow> ID \<Rightarrow> bool" where
  "Has th itemID = sm_Has (pm th) itemID"

text \<open>One iteration of the loop of \<open>add\<close>.\<close>

definition add_item :: "Mempool \<Rightarrow> Item \<Rightarrow> Mempool" where
  "add_item th x =
     (let sender = Payer x in
      if (case leasedItems th of None \<Rightarrow> False | Some l \<Rightarrow> ID x |\<in>| l) then th
      else if sm_Has (pm th) (ID x) then th
      else
        (let (acct, th1) =
               (case owned th sender of
                  None \<Rightarrow> ({||}, th\<lparr>owned := (owned th)(sender \<mapsto> {||})\<rparr>)
                | Some a \<Rightarrow> (a, th))
         in
         if sender |\<notin>| exemptPayers th1 \<and> int (fcard acct) = maxPayerSize th1 then th1
         else
           (let th2 = th1\<lparr>pm := sm_Add pmValue x (pm th1),
                          tm := sm_Add tmValue x (tm th1),
                          owned := (owned th1)(sender \<mapsto> finsert (ID x) acct)\<rparr>
            in
            if sm_Len (pm th2) > maxSize th2 then
              (let (lowItem, ok, pm') = sm_PopMin (pm th2) in
               removeFromOwned (th2\<lparr>pm := pm', tm := sm_Remove (ID lowItem) (tm th2)\<rparr>) lowItem)
            else th2)))"

definition add :: "Mempool \<Rightarrow> Item list \<Rightarrow> Mempool" where
  "add th items = foldl add_item th items"

definition Add :: "Mempool \<Rightarrow> Item list \<Rightarrow> Mempool" where
  "Add th items = add th items"

definition PeekMax :: "Mempool \<Rightarrow> Item \<times> bool" where
  "PeekMax th = sm_PeekMax (pm th)"

definition PeekMin :: "Mempool \<Rightarrow> Item \<times> bool" where
  "PeekMin th = sm_PeekMin (pm th)"

definition Len :: "Mempool \<Rightarrow> int" where
  "Len th = sm_Len (pm th)"


text \<open>\<open>popMax\<close>, shared by \<open>PopMax\<close> and \<open>LeaseItems\<close>; \<open>PopMin\<close> repeats it for the minimum.\<close>

definition popMax :: "Mempool \<Rightarrow> Mempool \<times> Item \<times> bool" where
  "popMax th =
     (let (max, ok, pm') = sm_PopMax (pm th); th1 = th\<lparr>pm := pm'\<rparr> in
      if ok then (removeFromOwned (th1\<lparr>tm := sm_Remove (ID max) (tm th1)\<rparr>) max, max, ok)
      else (th1, max, ok))"

definition PopMax :: "Mempool \<Rightarrow> Mempool \<times> Item \<times> bool" where
  "PopMax th = popMax th"

definition PopMin :: "Mempool \<Rightarrow> Mempool \<times> Item \<times> bool" where
  "PopMin th =
     (let (min, ok, pm') = sm_PopMin (pm th); th1 = th\<lparr>pm := pm'\<rparr> in
      if ok then (removeFromOwned (th1\<lparr>tm := sm_Remove (ID min) (tm th1)\<rparr>) min, min, ok)
      else (th1, min, ok))"

definition remove_item :: "Mempool \<Rightarrow> Item \<Rightarrow> Mempool" where
  "remove_item th x =
     removeFromOwned (th\<lparr>pm := sm_Remove (ID x) (pm th), tm := sm_Remove (ID x) (tm th)\<rparr>) x"

definition Remove :: "Mempool \<Rightarrow> Item list \<Rightarrow> Mempool" where
  "Remove th items = foldl remove_item th items"

text \<open>
  \<open>removeAccount\<close> ranges over the payer's id set, in the unspecified order of a Go map,
  and removes each id from both queues. Removals by id commute, so the loop is the
  removal of every entry whose id is in the set (\<open>sm_RemoveAll\<close>; the lemma
  \<open>fold_sm_Remove\<close> below relates it to the removals one by one, in any order).
\<close>

definition sm_RemoveAll :: "ID fset \<Rightarrow> SortedMempool \<Rightarrow> SortedMempool" where
  "sm_RemoveAll acct sm = filter (\<lambda>e. ID (item e) |\<notin>| acct) sm"

definition removeAccount :: "Mempool \<Rightarrow> string \<Rightarrow> Mempool" where
  "removeAccount th sender =
     (case owned th sender of
        None \<Rightarrow> th
      | Some acct \<Rightarrow>
          th\<lparr>pm := sm_RemoveAll acct (pm th), tm := sm_RemoveAll acct (tm th),
             owned := (owned th)(sender := None)\<rparr>)"

definition RemoveAccount :: "Mempool \<Rightarrow> string \<Rightarrow> Mempool" where
  "RemoveAccount th sender = removeAccount th sender"

text \<open>
  Modelled from the spec: \<open>SetMinVal\<close> of the absent \<open>SortedMempool\<close>: "repeatedly pop
  the root while its score \<open><\<close> threshold; return the removed items as an ordered
  sequence". Scores and the threshold are unsigned 64-bit values.
\<close>

function sm_SetMinVal :: "uint64 \<Rightarrow> SortedMempool \<Rightarrow> Item list \<times> SortedMempool" where
  "sm_SetMinVal v sm =
     (if sm = [] then ([], sm)
      else if score (sm_min (hd sm) (tl sm)) < v then
        (let m = item (sm_min (hd sm) (tl sm));
             r = sm_SetMinVal v (sm_Remove (ID m) sm)
         in (m # fst r, snd r))
      else ([], sm))"
  by pat_completeness auto

lemma extreme_mem: "extreme better b es \<in> set (b # es)"
  by (induction es arbitrary: b) auto

lemma sm_min_mem: "sm \<noteq> [] \<Longrightarrow> sm_min (hd sm) (tl sm) \<in> set sm"
  using extreme_mem[of "\<lambda>x y. x < y" "hd sm" "tl sm"] by (cases sm) (auto simp: sm_min_def)

lemma sm_max_mem: "sm \<noteq> [] \<Longrightarrow> sm_max (hd sm) (tl sm) \<in> set sm"
  using extreme_mem[of "\<lambda>x y. y < x" "hd sm" "tl sm"] by (cases sm) (auto simp: sm_max_def)

lemma sm_Remove_less: "e \<in> set sm \<Longrightarrow> length (sm_Remove (ID (item e)) sm) < length sm"
  unfolding sm_Remove_def by (rule length_filter_less[of e]) auto

termination sm_SetMinVal
  by (relation "measure (\<lambda>(v, sm). length sm)") (auto intro!: sm_Remove_less sm_min_mem)

declare sm_SetMinVal.simps [simp del]

text \<open>\<open>SetMinTimestamp\<close>: the threshold is \<open>uint64(t)\<close>; the removed items are returned.\<close>

definition SetMinTimestamp :: "Mempool \<Rightarrow> int64 \<Rightarrow> Mempool \<times> Item list" where
  "SetMinTimestamp th t =
     (let (removed, tm') = sm_SetMinVal (uint64_of_int64 t) (tm th);
          th1 = th\<lparr>tm := tm'\<rparr>
      in (foldl (\<lambda>th' r. removeFromOwned (th'\<lparr>pm := sm_Remove (ID r) (pm th')\<rparr>) r) th1 removed,
          removed))"

subsection \<open>Build\<close>

text \<open>
  The callback \<open>f\<close> returns \<open>(cont, restore, removeAcct, err)\<close>; \<open>err\<close> is \<open>None\<close> for
  Go's nil error. A Go closure may keep state between calls: the model hands the
  callback the items it was called with before, in order, so that any deterministic
  callback is a function of this history and the current item. The loop state also
  keeps, beside the items to restore, the trace of the calls made so far (item and
  verdict), which the source does not store; only the theorems read it.
\<close>

type_synonym verdict = "bool \<times> bool \<times> bool \<times> string option"

type_synonym callback = "Item list \<Rightarrow> Item \<Rightarrow> verdict"

text \<open>One iteration of the loop of \<open>Build\<close>, entered with a non-empty price queue.\<close>

definition build_step :: "callback \<Rightarrow> Mempool \<Rightarrow> (Item \<times> verdict) list \<Rightarrow> Item list
    \<Rightarrow> Mempool \<times> (Item \<times> verdict) list \<times> Item list \<times> bool \<times> string option" where
  "build_step f th tr restorableItems =
     (let (max, ok, pm') = sm_PopMax (pm th);
          th1 = th\<lparr>pm := pm'\<rparr>;
          (cont, restore, removeAcct, fErr) = f (map fst tr) max;
          (th2, restorable') =
             (if restore then (th1, restorableItems @ [max])
              else (removeFromOwned (th1\<lparr>tm := sm_Remove (ID max) (tm th1)\<rparr>) max,
                    restorableItems));
          th3 = (if removeAcct then removeAccount th2 (Payer max) else th2)
      in (th3, tr @ [(max, cont, restore, removeAcct, fErr)], restorable',
          \<not> cont \<or> fErr \<noteq> None, fErr))"

lemma pm_removeFromOwned [simp]: "pm (removeFromOwned th x) = pm th"
  by (simp add: removeFromOwned_def Let_def split: option.splits)

lemma tm_removeFromOwned [simp]: "tm (removeFromOwned th x) = tm th"
  by (simp add: removeFromOwned_def Let_def split: option.splits)

lemma length_pm_removeAccount: "length (pm (removeAccount th p)) \<le> length (pm th)"
  by (simp add: removeAccount_def sm_RemoveAll_def split: option.splits)

lemma length_sm_PopMax:
  "sm \<noteq> [] \<Longrightarrow> length (snd (snd (sm_PopMax sm))) < length sm"
  using sm_max_mem[of sm] sm_Remove_less[of "sm_max (hd sm) (tl sm)" sm]
  by (cases sm) (simp_all add: sm_PopMax_def Let_def)

lemma build_step_decreases:
  assumes "pm th \<noteq> []" and "build_step f th tr rs = (th', tr', rs', stop, e)"
  shows "length (pm th') < length (pm th)"
proof -
  obtain mx ok q where pop: "sm_PopMax (pm th) = (mx, ok, q)"
    by (cases "sm_PopMax (pm th)") auto
  have q: "length q < length (pm th)"
    using length_sm_PopMax[OF assms(1)] pop by simp
  obtain c r ra fe where v: "f (map fst tr) mx = (c, r, ra, fe)"
    by (cases "f (map fst tr) mx") auto
  define th2 where "th2 = (if r then th\<lparr>pm := q\<rparr>
      else removeFromOwned (th\<lparr>pm := q, tm := sm_Remove (ID mx) (tm th)\<rparr>) mx)"
  have q2: "pm th2 = q" by (simp add: th2_def)
  have "th' = (if ra then removeAccount th2 (Payer mx) else th2)"
    using assms(2) by (simp add: build_step_def pop v Let_def th2_def split: if_splits)
  then have "length (pm th') \<le> length q"
    using length_pm_removeAccount[of th2 "Payer mx"] q2 by (simp split: if_splits)
  with q show ?thesis by simp
qed

function build_loop :: "callback \<Rightarrow> Mempool \<Rightarrow> (Item \<times> verdict) list \<Rightarrow> Item list
    \<Rightarrow> Mempool \<times> (Item \<times> verdict) list \<times> Item list \<times> string option" where
  "build_loop f th tr restorableItems =
     (if sm_Len (pm th) > 0 then
        (case build_step f th tr restorableItems of
           (th', tr', restorable', stop, fErr) \<Rightarrow>
             if stop then (th', tr', restorable', fErr)
             else build_loop f th' tr' restorable')
      else (th, tr, restorableItems, None))"
  by pat_completeness auto

termination build_loop
  apply (relation "measure (\<lambda>(f, th, tr, rs). length (pm th))")
   apply simp
  apply (simp add: sm_Len_def)
  apply (metis build_step_decreases)
  done

declare build_loop.simps [simp del]

text \<open>After the loop the restorable items go back into the price queue only.\<close>

definition Build :: "callback \<Rightarrow> Mempool \<Rightarrow> Mempool \<times> string option" where
  "Build f th =
     (let (th', tr, restorableItems, err) = build_loop f th [] [] in
      (th'\<lparr>pm := foldl (\<lambda>q x. sm_Add pmValue x q) (pm th') restorableItems\<rparr>, err))"

subsection \<open>Leases\<close>

text \<open>
  \<open>LeaseItems\<close> first runs \<open>make([]T, 0, count)\<close>, which panics at run time for a
  negative \<open>count\<close>; this is the only failure of the function. It then assigns a fresh
  set to \<open>leasedItems\<close>, whatever was there, and pops up to \<open>count\<close> items. The loop
  counter of the model is \<open>count - len(txs)\<close>.
\<close>

datatype panic = MakesliceCapOutOfRange

fun lease_loop :: "Mempool \<Rightarrow> Item list \<Rightarrow> nat \<Rightarrow> Mempool \<times> Item list" where
  "lease_loop th txs 0 = (th, txs)"
| "lease_loop th txs (Suc n) =
     (let (th1, x, ok) = popMax th in
      if \<not> ok then (th1, txs)
      else lease_loop
             (th1\<lparr>leasedItems :=
                    Some (finsert (ID x) (case leasedItems th1 of None \<Rightarrow> {||} | Some l \<Rightarrow> l))\<rparr>)
             (txs @ [x]) n)"

definition LeaseItems :: "Mempool \<Rightarrow> int \<Rightarrow> panic + Mempool \<times> Item list" where
  "LeaseItems th count =
     (if count < 0 then Inl MakesliceCapOutOfRange
      else Inr (lease_loop (th\<lparr>leasedItems := Some {||}\<rparr>) [] (nat count)))"

definition ClearLease :: "Mempool \<Rightarrow> Item list \<Rightarrow> Mempool" where
  "ClearLease th restore = add (th\<lparr>leasedItems := None\<rparr>) restore"

section \<open>Admission by cases\<close>

text \<open>
  The conditions under which the loop body of \<open>add\<close> skips an item, inserts it, and
  evicts after inserting, read off mempool.go:171-198, and the states the last two
  produce. \<open>owned_fset th p\<close> is the id set of payer \<open>p\<close>, empty when the payer has
  no entry in \<open>owned\<close>.
\<close>

definition owned_fset :: "Mempool \<Rightarrow> string \<Rightarrow> ID fset" where
  "owned_fset th p = (case owned th p of None \<Rightarrow> {||} | Some a \<Rightarrow> a)"

definition lease_blocked :: "Mempool \<Rightarrow> Item \<Rightarrow> bool" where
  "lease_blocked th x = (case leasedItems th of None \<Rightarrow> False | Some l \<Rightarrow> ID x |\<in>| l)"

definition payer_full :: "Mempool \<Rightarrow> Item \<Rightarrow> bool" where
  "payer_full th x =
     (Payer x |\<notin>| exemptPayers th \<and> int (fcard (owned_fset th (Payer x))) = maxPayerSize th)"

definition admitted :: "Mempool \<Rightarrow> Item \<Rightarrow> bool" where
  "admitted th x = (\<not> lease_blocked th x \<and> \<not> sm_Has (pm th) (ID x) \<and> \<not> payer_full th x)"

definition evicts :: "Mempool \<Rightarrow> Item \<Rightarrow> bool" where
  "evicts th x = (admitted th x \<and> maxSize th < sm_Len (pm th) + 1)"

definition insert_item :: "Mempool \<Rightarrow> Item \<Rightarrow> Mempool" where
  "insert_item th x =
     th\<lparr>pm := sm_Add pmValue x (pm th), tm := sm_Add tmValue x (tm th),
        owned := (owned th)(Payer x \<mapsto> finsert (ID x) (owned_fset th (Payer x)))\<rparr>"

definition evict_min :: "Mempool \<Rightarrow> Mempool" where
  "evict_min th =
     (let (lowItem, ok, pm') = sm_PopMin (pm th) in
      removeFromOwned (th\<lparr>pm := pm', tm := sm_Remove (ID lowItem) (tm th)\<rparr>) lowItem)"

lemma add_item_skipped:
  "\<not> admitted th x \<Longrightarrow>
     pm (add_item th x) = pm th \<and> tm (add_item th x) = tm th
     \<and> owned_fset (add_item th x) = owned_fset th
     \<and> maxSize (add_item th x) = maxSize th \<and> maxPayerSize (add_item th x) = maxPayerSize th
     \<and> exemptPayers (add_item th x) = exemptPayers th \<and> leasedItems (add_item th x) = leasedItems th"
  by (auto simp: admitted_def lease_blocked_def payer_full_def add_item_def Let_def owned_fset_def fun_eq_iff
      split: option.splits)

lemma add_item_admitted:
  "admitted th x \<Longrightarrow> \<not> evicts th x \<Longrightarrow> add_item th x = insert_item th x"
  by (auto simp: admitted_def evicts_def lease_blocked_def payer_full_def add_item_def Let_def owned_fset_def
       insert_item_def sm_Len_def sm_Add_def
      split: option.splits)

lemma add_item_evicts:
  "evicts th x \<Longrightarrow> add_item th x = evict_min (insert_item th x)"
  by (auto simp: admitted_def evicts_def lease_blocked_def payer_full_def add_item_def Let_def owned_fset_def
       insert_item_def sm_Len_def sm_Add_def evict_min_def
      split: option.splits)


subsection \<open>Facts about the queues\<close>

lemma sm_min_least: "e \<in> set (b # es) \<Longrightarrow> score (sm_min b es) \<le> score e"
  unfolding sm_min_def
proof (induction es arbitrary: b e)
  case Nil
  then show ?case by simp
next
  case (Cons a es)
  let ?b = "if score a < score b then a else b"
  have b: "score ?b \<le> score b" "score ?b \<le> score a" by auto
  have r: "score (extreme (\<lambda>x y. x < y) ?b es) \<le> score ?b"
    by (rule Cons.IH) simp
  from Cons.prems consider "e = b" | "e = a" | "e \<in> set es" by auto
  then show ?case
  proof cases
    case 1 with r b show ?thesis by (auto simp del: extreme.simps simp add: extreme.simps(2))
  next
    case 2 with r b show ?thesis by (auto simp del: extreme.simps simp add: extreme.simps(2))
  next
    case 3
    then have "score (extreme (\<lambda>x y. x < y) ?b es) \<le> score e" by (intro Cons.IH) simp
    then show ?thesis by simp
  qed
qed

lemma sm_max_greatest: "e \<in> set (b # es) \<Longrightarrow> score e \<le> score (sm_max b es)"
  unfolding sm_max_def
proof (induction es arbitrary: b e)
  case Nil
  then show ?case by simp
next
  case (Cons a es)
  let ?b = "if score b < score a then a else b"
  have b: "score b \<le> score ?b" "score a \<le> score ?b" by auto
  have r: "score ?b \<le> score (extreme (\<lambda>x y. y < x) ?b es)"
    by (rule Cons.IH) simp
  from Cons.prems consider "e = b" | "e = a" | "e \<in> set es" by auto
  then show ?case
  proof cases
    case 1 with r b show ?thesis by (auto simp del: extreme.simps simp add: extreme.simps(2))
  next
    case 2 with r b show ?thesis by (auto simp del: extreme.simps simp add: extreme.simps(2))
  next
    case 3
    then have "score e \<le> score (extreme (\<lambda>x y. y < x) ?b es)" by (intro Cons.IH) simp
    then show ?thesis by simp
  qed
qed

lemma sm_PopMin_nonempty:
  assumes "sm \<noteq> []"
  shows "\<exists>m \<in> set sm. (\<forall>e \<in> set sm. score m \<le> score e)
           \<and> sm_PopMin sm = (item m, True, sm_Remove (ID (item m)) sm)"
proof -
  from assms obtain b es where sm: "sm = b # es" by (cases sm) auto
  have "sm_min b es \<in> set sm" using sm_min_mem[of sm] sm by simp
  moreover have "\<forall>e \<in> set sm. score (sm_min b es) \<le> score e"
    using sm_min_least[of _ b es] sm by blast
  moreover have "sm_PopMin sm = (item (sm_min b es), True, sm_Remove (ID (item (sm_min b es))) sm)"
    by (simp add: sm_PopMin_def sm Let_def)
  ultimately show ?thesis by blast
qed

lemma sm_PopMax_nonempty:
  assumes "sm \<noteq> []"
  shows "\<exists>m \<in> set sm. (\<forall>e \<in> set sm. score e \<le> score m)
           \<and> sm_PopMax sm = (item m, True, sm_Remove (ID (item m)) sm)"
proof -
  from assms obtain b es where sm: "sm = b # es" by (cases sm) auto
  have "sm_max b es \<in> set sm" using sm_max_mem[of sm] sm by simp
  moreover have "\<forall>e \<in> set sm. score e \<le> score (sm_max b es)"
    using sm_max_greatest[of _ b es] sm by blast
  moreover have "sm_PopMax sm = (item (sm_max b es), True, sm_Remove (ID (item (sm_max b es))) sm)"
    by (simp add: sm_PopMax_def sm Let_def)
  ultimately show ?thesis by blast
qed

lemma length_sm_Remove [simp]: "length (sm_Remove i sm) \<le> length sm"
  by (simp add: sm_Remove_def)

lemma length_sm_RemoveAll [simp]: "length (sm_RemoveAll a sm) \<le> length sm"
  by (simp add: sm_RemoveAll_def)

lemma length_sm_PopMax_le: "sm_PopMax sm = (x, ok, q) \<Longrightarrow> length q \<le> length sm"
  using sm_PopMax_nonempty[of sm] by (cases "sm = []") (auto simp: sm_PopMax_def)

lemma length_sm_PopMin_le: "sm_PopMin sm = (x, ok, q) \<Longrightarrow> length q \<le> length sm"
  using sm_PopMin_nonempty[of sm] by (cases "sm = []") (auto simp: sm_PopMin_def)

lemma fold_sm_Remove: "fold sm_Remove is sm = sm_RemoveAll (fset_of_list is) sm"
proof (induction "is" arbitrary: sm)
  case Nil
  show ?case by (simp add: sm_RemoveAll_def)
next
  case (Cons i "is")
  have "fold sm_Remove (i # is) sm = sm_RemoveAll (fset_of_list is) (sm_Remove i sm)"
    by (simp add: Cons.IH)
  also have "\<dots> = sm_RemoveAll (fset_of_list (i # is)) sm"
    by (auto simp: sm_RemoveAll_def sm_Remove_def intro: filter_cong)
  finally show ?case .
qed

subsection \<open>Operations that only remove\<close>

text \<open>
  \<open>frame th th'\<close>: the limits and the exempt payers are those of \<open>th\<close>, no payer owns
  an id in \<open>th'\<close> that it did not own in \<open>th\<close>, and the price queue is not longer.
\<close>

definition frame :: "Mempool \<Rightarrow> Mempool \<Rightarrow> bool" where
  "frame th th' \<longleftrightarrow>
     maxSize th' = maxSize th \<and> maxPayerSize th' = maxPayerSize th
     \<and> exemptPayers th' = exemptPayers th
     \<and> (\<forall>p. owned_fset th' p |\<subseteq>| owned_fset th p)
     \<and> length (pm th') \<le> length (pm th)"

lemma frame_refl [simp]: "frame th th"
  by (simp add: frame_def)

lemma frame_trans: "frame a b \<Longrightarrow> frame b c \<Longrightarrow> frame a c"
  by (auto simp: frame_def)

lemma frame_queues:
  "length q \<le> length (pm th) \<Longrightarrow> frame th (th\<lparr>pm := q\<rparr>)"
  "frame th (th\<lparr>tm := q'\<rparr>)"
  "length q \<le> length (pm th) \<Longrightarrow> frame th (th\<lparr>pm := q, tm := q'\<rparr>)"
  "frame th (th\<lparr>leasedItems := l\<rparr>)"
  by (simp_all add: frame_def owned_fset_def)

lemma frame_removeFromOwned: "frame th (removeFromOwned th x)"
  by (auto simp: frame_def removeFromOwned_def Let_def owned_fset_def split: option.splits)

lemma frame_removeAccount: "frame th (removeAccount th p)"
  by (auto simp: frame_def removeAccount_def owned_fset_def split: option.splits)

lemma frame_foldl:
  assumes "\<And>th x. frame th (g th x)"
  shows "frame th (foldl g th xs)"
proof (induction xs arbitrary: th)
  case Nil
  show ?case by simp
next
  case (Cons x xs)
  show ?case using frame_trans[OF assms[of th x] Cons.IH[of "g th x"]] by simp
qed

lemma frame_remove_item: "frame th (remove_item th x)"
  unfolding remove_item_def
  by (rule frame_trans[OF _ frame_removeFromOwned]) (simp add: frame_queues)

lemma frame_Remove: "frame th (Remove th xs)"
  unfolding Remove_def by (rule frame_foldl) (rule frame_remove_item)

lemma frame_popMax: "frame th (fst (popMax th))"
proof -
  obtain mx ok q where p: "sm_PopMax (pm th) = (mx, ok, q)" by (cases "sm_PopMax (pm th)") auto
  note q = length_sm_PopMax_le[OF p]
  show ?thesis
    using frame_trans[OF _ frame_removeFromOwned[of "th\<lparr>pm := q, tm := sm_Remove (ID mx) (tm th)\<rparr>" mx]] q
    by (simp add: popMax_def p Let_def frame_queues)
qed

lemma frame_PopMin: "frame th (fst (PopMin th))"
proof -
  obtain mx ok q where p: "sm_PopMin (pm th) = (mx, ok, q)" by (cases "sm_PopMin (pm th)") auto
  note q = length_sm_PopMin_le[OF p]
  show ?thesis
    using frame_trans[OF _ frame_removeFromOwned[of "th\<lparr>pm := q, tm := sm_Remove (ID mx) (tm th)\<rparr>" mx]] q
    by (simp add: PopMin_def p Let_def frame_queues)
qed

lemma frame_SetMinTimestamp: "frame th (fst (SetMinTimestamp th t))"
proof -
  obtain removed q where p: "sm_SetMinVal (uint64_of_int64 t) (tm th) = (removed, q)"
    by (cases "sm_SetMinVal (uint64_of_int64 t) (tm th)") auto
  have step: "frame th' (removeFromOwned (th'\<lparr>pm := sm_Remove (ID r) (pm th')\<rparr>) r)" for th' r
    by (rule frame_trans[OF _ frame_removeFromOwned]) (simp add: frame_queues)
  have "frame (th\<lparr>tm := q\<rparr>)
     (foldl (\<lambda>th' r. removeFromOwned (th'\<lparr>pm := sm_Remove (ID r) (pm th')\<rparr>) r) (th\<lparr>tm := q\<rparr>) removed)"
    by (rule frame_foldl) (rule step)
  then show ?thesis
    using frame_trans[of th "th\<lparr>tm := q\<rparr>"] by (simp add: SetMinTimestamp_def p Let_def frame_queues)
qed

lemma frame_lease_loop: "frame th (fst (lease_loop th txs n))"
proof (induction n arbitrary: th txs)
  case 0
  show ?case by simp
next
  case (Suc n)
  obtain th1 x ok where p: "popMax th = (th1, x, ok)" by (cases "popMax th") auto
  have f1: "frame th th1" using frame_popMax[of th] p by simp
  show ?case
  proof (cases ok)
    case False
    then show ?thesis using p f1 by simp
  next
    case True
    let ?th2 = "th1\<lparr>leasedItems :=
        Some (finsert (ID x) (case leasedItems th1 of None \<Rightarrow> {||} | Some l \<Rightarrow> l))\<rparr>"
    have "frame th ?th2" by (rule frame_trans[OF f1]) (simp add: frame_queues)
    from frame_trans[OF this Suc.IH[of ?th2 "txs @ [x]"]] show ?thesis using p True by simp
  qed
qed

lemma frame_LeaseItems: "LeaseItems th count = Inr (th', txs) \<Longrightarrow> frame th th'"
  using frame_trans[OF _ frame_lease_loop[of "th\<lparr>leasedItems := Some {||}\<rparr>" "[]" "nat count"]]
  by (auto simp: LeaseItems_def frame_queues split: if_splits)

subsection \<open>An invariant rule for the loop of \<open>Build\<close>\<close>

lemma build_loop_invariant:
  assumes "build_loop f th tr rs = (th', tr', rs', e)"
    and "I th tr rs"
    and step: "\<And>th tr rs th1 tr1 rs1 stop e1.
        I th tr rs \<Longrightarrow> pm th \<noteq> [] \<Longrightarrow> build_step f th tr rs = (th1, tr1, rs1, stop, e1)
        \<Longrightarrow> I th1 tr1 rs1"
  shows "I th' tr' rs'"
  using assms
proof (induction f th tr rs rule: build_loop.induct)
  case (1 f th tr rs)
  show ?case
  proof (cases "0 < sm_Len (pm th)")
    case False
    with "1.prems"(1) have "th' = th \<and> tr' = tr \<and> rs' = rs"
      by (simp add: build_loop.simps)
    with "1.prems"(2) show ?thesis by simp
  next
    case True
    obtain th1 tr1 rs1 stop e1 where s: "build_step f th tr rs = (th1, tr1, rs1, stop, e1)"
      by (metis prod_cases5)
    from True have ne: "pm th \<noteq> []" by (auto simp: sm_Len_def)
    have I1: "I th1 tr1 rs1" by (rule "1.prems"(3)[OF "1.prems"(2) ne s])
    show ?thesis
    proof (cases stop)
      case True
      with "1.prems"(1) \<open>0 < sm_Len (pm th)\<close> s have "th' = th1 \<and> tr' = tr1 \<and> rs' = rs1"
        by (simp add: build_loop.simps[of f th tr rs])
      with I1 show ?thesis by simp
    next
      case False
      with "1.prems"(1) \<open>0 < sm_Len (pm th)\<close> s
      have "build_loop f th1 tr1 rs1 = (th', tr', rs', e)"
        by (simp add: build_loop.simps[of f th tr rs])
      from "1.IH"[OF \<open>0 < sm_Len (pm th)\<close> s[symmetric] refl refl refl False this I1 "1.prems"(3)]
      show ?thesis .
    qed
  qed
qed


lemma build_step_eq:
  assumes "sm_PopMax (pm th) = (mx, ok, q)" and "f (map fst tr) mx = (c, r, ra, fe)"
  shows "build_step f th tr rs =
     (let th2 = (if r then th\<lparr>pm := q\<rparr>
                 else removeFromOwned (th\<lparr>pm := q, tm := sm_Remove (ID mx) (tm th)\<rparr>) mx)
      in ((if ra then removeAccount th2 (Payer mx) else th2), tr @ [(mx, c, r, ra, fe)],
          (if r then rs @ [mx] else rs), \<not> c \<or> fe \<noteq> None, fe))"
  by (simp add: build_step_def assms Let_def)

lemma build_step_frame:
  assumes "pm th \<noteq> []" and "build_step f th tr rs = (th1, tr1, rs1, stop, e1)"
  shows "frame th th1 \<and> length (pm th1) + length rs1 \<le> length (pm th) + length rs"
proof -
  obtain mx ok q where pop: "sm_PopMax (pm th) = (mx, ok, q)"
    by (cases "sm_PopMax (pm th)") auto
  have q: "length q < length (pm th)"
    using length_sm_PopMax[OF assms(1)] pop by simp
  obtain c r ra fe where v: "f (map fst tr) mx = (c, r, ra, fe)"
    by (cases "f (map fst tr) mx") auto
  define th2 where "th2 = (if r then th\<lparr>pm := q\<rparr>
      else removeFromOwned (th\<lparr>pm := q, tm := sm_Remove (ID mx) (tm th)\<rparr>) mx)"
  have q2: "pm th2 = q" by (simp add: th2_def)
  have f2: "frame th th2"
    unfolding th2_def using q
    by (auto intro!: frame_trans[OF _ frame_removeFromOwned] simp: frame_queues)
  have th1: "th1 = (if ra then removeAccount th2 (Payer mx) else th2)"
    and rs1: "rs1 = (if r then rs @ [mx] else rs)"
    using assms(2) by (auto simp add: build_step_eq[where f = f, OF pop v] Let_def th2_def)
  have f3: "frame th2 th1" unfolding th1 by (simp add: frame_removeAccount)
  have "length (pm th1) \<le> length q" using f3 q2 by (simp add: frame_def)
  with q rs1 have "length (pm th1) + length rs1 \<le> length (pm th) + length rs" by simp
  with frame_trans[OF f2 f3] show ?thesis by simp
qed

lemma length_foldl_sm_Add:
  "length (foldl (\<lambda>q x. sm_Add g x q) q xs) = length q + length xs"
  by (induction xs arbitrary: q) (simp_all add: sm_Add_def)

lemma frame_Build: "frame th (fst (Build f th))"
proof -
  obtain th' tr' rs' e where b: "build_loop f th [] [] = (th', tr', rs', e)"
    by (metis prod_cases4)
  have "frame th th' \<and> length (pm th') + length rs' \<le> length (pm th)"
  proof (rule build_loop_invariant[OF b, where I = "\<lambda>t tr rs. frame th t \<and> length (pm t) + length rs \<le> length (pm th)"])
    show "frame th th \<and> length (pm th) + length [] \<le> length (pm th)" by simp
  next
    fix t tr rs th1 tr1 rs1 stop e1
    assume I: "frame th t \<and> length (pm t) + length rs \<le> length (pm th)"
      and ne: "pm t \<noteq> []" and s: "build_step f t tr rs = (th1, tr1, rs1, stop, e1)"
    from build_step_frame[OF ne s] I
    show "frame th th1 \<and> length (pm th1) + length rs1 \<le> length (pm th)"
      using frame_trans by (metis add.commute le_trans)
  qed
  then show ?thesis
    by (simp add: Build_def b frame_def owned_fset_def length_foldl_sm_Add)
qed


subsection \<open>Capacity and payer cap as invariants\<close>

definition capacity_inv :: "Mempool \<Rightarrow> bool" where
  "capacity_inv th \<longleftrightarrow> Len th \<le> maxSize th"

definition payer_cap_inv :: "Mempool \<Rightarrow> bool" where
  "payer_cap_inv th \<longleftrightarrow>
     (\<forall>p. p |\<notin>| exemptPayers th \<longrightarrow> int (fcard (owned_fset th p)) \<le> maxPayerSize th)"

lemma capacity_frame: "frame th th' \<Longrightarrow> capacity_inv th \<Longrightarrow> capacity_inv th'"
  by (simp add: frame_def capacity_inv_def Len_def sm_Len_def)

lemma payer_cap_frame:
  assumes "frame th th'" and "payer_cap_inv th"
  shows "payer_cap_inv th'"
  unfolding payer_cap_inv_def
proof (intro allI impI)
  fix p assume "p |\<notin>| exemptPayers th'"
  with assms(1) have ex: "p |\<notin>| exemptPayers th" by (simp add: frame_def)
  from assms(1) have "owned_fset th' p |\<subseteq>| owned_fset th p" by (simp add: frame_def)
  then have "fcard (owned_fset th' p) \<le> fcard (owned_fset th p)" by (rule fcard_mono)
  moreover from assms(2) ex have "int (fcard (owned_fset th p)) \<le> maxPayerSize th"
    by (simp add: payer_cap_inv_def)
  ultimately show "int (fcard (owned_fset th' p)) \<le> maxPayerSize th'"
    using assms(1) by (simp add: frame_def)
qed

lemma frame_evict_min: "frame th (evict_min th)"
proof -
  obtain low ok q where p: "sm_PopMin (pm th) = (low, ok, q)" by (cases "sm_PopMin (pm th)") auto
  note q = length_sm_PopMin_le[OF p]
  show ?thesis
    using frame_trans[OF _ frame_removeFromOwned[of "th\<lparr>pm := q, tm := sm_Remove (ID low) (tm th)\<rparr>" low]] q
    by (simp add: evict_min_def p frame_queues)
qed

lemma length_pm_evict_min: "pm th \<noteq> [] \<Longrightarrow> length (pm (evict_min th)) < length (pm th)"
  using sm_PopMin_nonempty[of "pm th"] sm_Remove_less[of _ "pm th"]
  by (auto simp: evict_min_def)

lemma add_item_params:
  "maxSize (add_item th x) = maxSize th" "maxPayerSize (add_item th x) = maxPayerSize th"
  "exemptPayers (add_item th x) = exemptPayers th"
proof -
  have "maxSize (add_item th x) = maxSize th \<and> maxPayerSize (add_item th x) = maxPayerSize th
    \<and> exemptPayers (add_item th x) = exemptPayers th"
  proof (cases "admitted th x")
    case False
    then show ?thesis by (simp add: add_item_skipped)
  next
    case True
    show ?thesis
    proof (cases "evicts th x")
      case False
      with True show ?thesis by (simp add: add_item_admitted insert_item_def)
    next
      case True
      then show ?thesis
        using frame_evict_min[of "insert_item th x"]
        by (simp add: add_item_evicts frame_def insert_item_def)
    qed
  qed
  then show "maxSize (add_item th x) = maxSize th" "maxPayerSize (add_item th x) = maxPayerSize th"
    "exemptPayers (add_item th x) = exemptPayers th" by simp_all
qed

lemma add_item_capacity: "capacity_inv th \<Longrightarrow> capacity_inv (add_item th x)"
proof (cases "admitted th x")
  case False
  assume "capacity_inv th"
  with False show ?thesis by (simp add: capacity_inv_def Len_def add_item_skipped)
next
  case adm: True
  assume c: "capacity_inv th"
  show ?thesis
  proof (cases "evicts th x")
    case False
    with adm have "sm_Len (pm th) + 1 \<le> maxSize th" by (simp add: evicts_def)
    with adm False show ?thesis
      by (simp add: capacity_inv_def Len_def add_item_admitted insert_item_def sm_Len_def sm_Add_def)
  next
    case True
    have "pm (insert_item th x) \<noteq> []" by (simp add: insert_item_def sm_Add_def)
    from length_pm_evict_min[OF this]
    have "length (pm (add_item th x)) \<le> length (pm th)"
      using True by (simp add: add_item_evicts insert_item_def sm_Add_def)
    with c show ?thesis
      by (simp add: capacity_inv_def Len_def sm_Len_def add_item_params)
  qed
qed

lemma payer_cap_insert_item:
  assumes "payer_cap_inv th" and "\<not> payer_full th x"
  shows "payer_cap_inv (insert_item th x)"
  unfolding payer_cap_inv_def
proof (intro allI impI)
  fix p assume "p |\<notin>| exemptPayers (insert_item th x)"
  then have ex: "p |\<notin>| exemptPayers th" by (simp add: insert_item_def)
  with assms(1) have old: "int (fcard (owned_fset th p)) \<le> maxPayerSize th"
    by (simp add: payer_cap_inv_def)
  show "int (fcard (owned_fset (insert_item th x) p)) \<le> maxPayerSize (insert_item th x)"
  proof (cases "p = Payer x")
    case False
    with old show ?thesis by (simp add: insert_item_def owned_fset_def)
  next
    case True
    with ex assms(2) old have "int (fcard (owned_fset th (Payer x))) < maxPayerSize th"
      by (simp add: payer_full_def)
    moreover have "fcard (finsert (ID x) (owned_fset th (Payer x))) \<le> Suc (fcard (owned_fset th (Payer x)))"
      by (simp add: fcard_finsert_if)
    ultimately show ?thesis using True
      by (simp add: insert_item_def owned_fset_def)
  qed
qed

lemma add_item_payer_cap: "payer_cap_inv th \<Longrightarrow> payer_cap_inv (add_item th x)"
proof (cases "admitted th x")
  case False
  assume "payer_cap_inv th"
  with False show ?thesis by (simp add: payer_cap_inv_def add_item_skipped)
next
  case adm: True
  assume c: "payer_cap_inv th"
  from adm have nf: "\<not> payer_full th x" by (simp add: admitted_def)
  show ?thesis
  proof (cases "evicts th x")
    case False
    with adm show ?thesis by (simp add: add_item_admitted payer_cap_insert_item[OF c nf])
  next
    case True
    then show ?thesis
      using payer_cap_frame[OF frame_evict_min payer_cap_insert_item[OF c nf]]
      by (simp add: add_item_evicts)
  qed
qed

lemma add_capacity: "capacity_inv th \<Longrightarrow> capacity_inv (add th xs)"
  unfolding add_def by (induction xs arbitrary: th) (simp_all add: add_item_capacity)

lemma add_payer_cap: "payer_cap_inv th \<Longrightarrow> payer_cap_inv (add th xs)"
  unfolding add_def by (induction xs arbitrary: th) (simp_all add: add_item_payer_cap)

lemma add_params:
  "maxSize (add th xs) = maxSize th" "maxPayerSize (add th xs) = maxPayerSize th"
  "exemptPayers (add th xs) = exemptPayers th"
  unfolding add_def by (induction xs arbitrary: th) (simp_all add: add_item_params)

text \<open>
  The states of a mempool: made by \<open>New\<close> with \<open>maxSize > 0\<close>, as the source requires,
  and changed by the exported operations only.
\<close>

inductive reachable :: "Mempool \<Rightarrow> bool" where
  r_New: "0 < maxSz \<Longrightarrow> reachable (New maxSz maxPayerSz exempt)"
| r_Add: "reachable th \<Longrightarrow> reachable (Add th items)"
| r_PopMax: "reachable th \<Longrightarrow> reachable (fst (PopMax th))"
| r_PopMin: "reachable th \<Longrightarrow> reachable (fst (PopMin th))"
| r_Remove: "reachable th \<Longrightarrow> reachable (Remove th items)"
| r_RemoveAccount: "reachable th \<Longrightarrow> reachable (RemoveAccount th sender)"
| r_SetMinTimestamp: "reachable th \<Longrightarrow> reachable (fst (SetMinTimestamp th t))"
| r_Build: "reachable th \<Longrightarrow> reachable (fst (Build f th))"
| r_LeaseItems: "reachable th \<Longrightarrow> LeaseItems th count = Inr (th', txs) \<Longrightarrow> reachable th'"
| r_ClearLease: "reachable th \<Longrightarrow> reachable (ClearLease th restore)"

lemma reachable_preserves:
  assumes "reachable th"
    and new: "\<And>maxSz maxPayerSz exempt. 0 < maxSz \<Longrightarrow> Q (New maxSz maxPayerSz exempt) \<Longrightarrow> I (New maxSz maxPayerSz exempt)"
    and q_frame: "\<And>a b. frame a b \<Longrightarrow> Q b \<Longrightarrow> Q a"
    and q_add: "\<And>a xs. Q (add a xs) \<Longrightarrow> Q a"
    and i_frame: "\<And>a b. frame a b \<Longrightarrow> I a \<Longrightarrow> I b"
    and i_add: "\<And>a xs. I a \<Longrightarrow> I (add a xs)"
  shows "Q th \<Longrightarrow> I th"
  using assms(1)
proof (induction rule: reachable.induct)
  case (r_New maxSz maxPayerSz exempt)
  then show ?case using new by blast
next
  case (r_Add th items)
  then show ?case using q_add[of th items] i_add[of th items] by (simp add: Add_def)
next
  case (r_PopMax th)
  then show ?case using frame_popMax[of th] q_frame i_frame unfolding PopMax_def by blast
next
  case (r_PopMin th)
  then show ?case using frame_PopMin[of th] q_frame i_frame by blast
next
  case (r_Remove th items)
  then show ?case using frame_Remove[of th items] q_frame i_frame by blast
next
  case (r_RemoveAccount th sender)
  then show ?case using frame_removeAccount[of th sender] q_frame i_frame unfolding RemoveAccount_def by blast
next
  case (r_SetMinTimestamp th t)
  then show ?case using frame_SetMinTimestamp[of th t] q_frame i_frame by blast
next
  case (r_Build th f)
  then show ?case using frame_Build[of th f] q_frame i_frame by blast
next
  case (r_LeaseItems th count th' txs)
  then show ?case using frame_LeaseItems[of th count th' txs] q_frame i_frame by blast
next
  case (r_ClearLease th restore)
  have f: "frame th (th\<lparr>leasedItems := None\<rparr>)" by (simp add: frame_queues)
  from r_ClearLease.prems have "Q (th\<lparr>leasedItems := None\<rparr>)"
    using q_add unfolding ClearLease_def by blast
  with f have "Q th" using q_frame by blast
  with r_ClearLease.IH have "I th" by simp
  with f have "I (th\<lparr>leasedItems := None\<rparr>)" using i_frame by blast
  then show ?case unfolding ClearLease_def using i_add by blast
qed

lemma reachable_capacity: "reachable th \<Longrightarrow> capacity_inv th"
proof (rule reachable_preserves[where Q = "\<lambda>_. True" and I = capacity_inv])
  fix maxSz :: int and maxPayerSz exempt
  assume "0 < maxSz"
  then show "capacity_inv (New maxSz maxPayerSz exempt)"
    by (simp add: capacity_inv_def Len_def New_def NewSortedMempool_def sm_Len_def)
qed (simp_all add: capacity_frame add_capacity)

lemma reachable_payer_cap: "reachable th \<Longrightarrow> 0 \<le> maxPayerSize th \<Longrightarrow> payer_cap_inv th"
proof (rule reachable_preserves[where Q = "\<lambda>th. 0 \<le> maxPayerSize th" and I = payer_cap_inv])
  fix maxSz :: int and maxPayerSz exempt
  assume "0 \<le> maxPayerSize (New maxSz maxPayerSz exempt)"
  then show "payer_cap_inv (New maxSz maxPayerSz exempt)"
    by (simp add: payer_cap_inv_def New_def owned_fset_def fcard_fempty)
next
  fix a b assume "frame a b" and "0 \<le> maxPayerSize b"
  then show "0 \<le> maxPayerSize a" by (simp add: frame_def)
qed (simp_all add: payer_cap_frame add_payer_cap add_params)


lemma sm_Has_sm_Remove [simp]: "sm_Has (sm_Remove i sm) j \<longleftrightarrow> sm_Has sm j \<and> j \<noteq> i"
  by (auto simp: sm_Has_def sm_ids_def sm_Remove_def)

lemma owned_fset_removeFromOwned:
  "owned_fset (removeFromOwned th x) p =
     (if p = Payer x then owned_fset th p |-| {|ID x|} else owned_fset th p)"
  by (auto simp: removeFromOwned_def owned_fset_def Let_def fcard_0_eq split: option.splits)

lemma evict_min_result:
  assumes "pm th \<noteq> []"
  shows "\<exists>m \<in> set (pm th). (\<forall>e \<in> set (pm th). score m \<le> score e)
     \<and> evict_min th = removeFromOwned (th\<lparr>pm := sm_Remove (ID (item m)) (pm th),
                                           tm := sm_Remove (ID (item m)) (tm th)\<rparr>) (item m)
     \<and> \<not> sm_Has (pm (evict_min th)) (ID (item m))
     \<and> \<not> sm_Has (tm (evict_min th)) (ID (item m))
     \<and> ID (item m) |\<notin>| owned_fset (evict_min th) (Payer (item m))"
proof -
  from sm_PopMin_nonempty[OF assms] obtain m where m: "m \<in> set (pm th)"
    "\<forall>e \<in> set (pm th). score m \<le> score e"
    "sm_PopMin (pm th) = (item m, True, sm_Remove (ID (item m)) (pm th))" by blast
  have e: "evict_min th = removeFromOwned (th\<lparr>pm := sm_Remove (ID (item m)) (pm th),
      tm := sm_Remove (ID (item m)) (tm th)\<rparr>) (item m)"
    by (simp add: evict_min_def m(3))
  show ?thesis
    by (rule bexI[OF _ m(1)]) (simp add: m(2) e owned_fset_removeFromOwned)
qed

subsection \<open>Unfolding the model on concrete mempools\<close>

lemmas queue_defs =
  NewSortedMempool_def sm_ids_def sm_Add_def sm_Has_def sm_Remove_def sm_Len_def
  sm_min_def sm_max_def sm_PeekMin_def sm_PeekMax_def sm_PopMin_def sm_PopMax_def
  sm_RemoveAll_def zeroItem_def uint64_of_int64_def pmValue_def tmValue_def

lemmas mempool_defs =
  New_def removeFromOwned_def Has_def add_item_def add_def Add_def PeekMax_def PeekMin_def
  Len_def popMax_def PopMax_def PopMin_def remove_item_def Remove_def removeAccount_def
  RemoveAccount_def SetMinTimestamp_def build_step_def Build_def LeaseItems_def
  ClearLease_def Let_def fcard_finsert_if fcard_fempty

text \<open>The two items of scenario S1: the same id, different prices.\<close>

definition itemA :: Item where
  "itemA = \<lparr>ID = 1, Payer = ''P'', UnitPrice = 7, Expiry = 100\<rparr>"

definition itemA' :: Item where
  "itemA' = \<lparr>ID = 1, Payer = ''P'', UnitPrice = 9, Expiry = 200\<rparr>"

definition itemB :: Item where
  "itemB = \<lparr>ID = 2, Payer = ''P'', UnitPrice = 9, Expiry = 200\<rparr>"

text \<open>An item whose expiry is the negative timestamp \<open>-1\<close>.\<close>

definition itemNeg :: Item where
  "itemNeg = \<lparr>ID = 3, Payer = ''Q'', UnitPrice = 5, Expiry = - 1\<rparr>"

text \<open>A mempool holding \<open>itemA\<close> alone.\<close>

definition mempoolA :: Mempool where
  "mempoolA = Add (New 10 5 []) [itemA]"

lemma mempoolA_eq:
  "mempoolA = \<lparr>maxSize = 10, maxPayerSize = 5, pm = [\<lparr>item = itemA, score = 7\<rparr>],
      tm = [\<lparr>item = itemA, score = 100\<rparr>], owned = [''P'' \<mapsto> {|1|}],
      exemptPayers = {||}, leasedItems = None\<rparr>"
  by (simp add: mempoolA_def mempool_defs queue_defs itemA_def)

lemmas admission_defs =
  evicts_def admitted_def lease_blocked_def payer_full_def owned_fset_def insert_item_def
  evict_min_def

text \<open>A mempool of capacity 1 holding the price-9 item \<open>itemB\<close>.\<close>

definition mempoolB1 :: Mempool where
  "mempoolB1 = Add (New 1 5 []) [itemB]"

lemma mempoolB1_eq:
  "mempoolB1 = \<lparr>maxSize = 1, maxPayerSize = 5, pm = [\<lparr>item = itemB, score = 9\<rparr>],
      tm = [\<lparr>item = itemB, score = 200\<rparr>], owned = [''P'' \<mapsto> {|2|}],
      exemptPayers = {||}, leasedItems = None\<rparr>"
  by (simp add: mempoolB1_def mempool_defs queue_defs itemB_def)

text \<open>Scenarios S3 and S4: two items of payer \<open>P\<close>, payer cap 1, \<open>P\<close> not exempt and exempt.\<close>

definition mempoolCap :: Mempool where
  "mempoolCap = Add (New 10 1 []) [itemA, itemB]"

lemma mempoolCap_eq:
  "mempoolCap = \<lparr>maxSize = 10, maxPayerSize = 1, pm = [\<lparr>item = itemA, score = 7\<rparr>],
      tm = [\<lparr>item = itemA, score = 100\<rparr>], owned = [''P'' \<mapsto> {|1|}],
      exemptPayers = {||}, leasedItems = None\<rparr>"
  by (simp add: mempoolCap_def mempool_defs queue_defs itemA_def itemB_def)

definition mempoolExempt :: Mempool where
  "mempoolExempt = Add (New 10 1 [''P'']) [itemA, itemB]"

lemma mempoolExempt_eq:
  "mempoolExempt = \<lparr>maxSize = 10, maxPayerSize = 1,
      pm = [\<lparr>item = itemA, score = 7\<rparr>, \<lparr>item = itemB, score = 9\<rparr>],
      tm = [\<lparr>item = itemA, score = 100\<rparr>, \<lparr>item = itemB, score = 200\<rparr>],
      owned = [''P'' \<mapsto> {|2, 1|}], exemptPayers = {|''P''|}, leasedItems = None\<rparr>"
  by (simp add: mempoolExempt_def mempool_defs queue_defs itemA_def itemB_def)

section \<open>Duplicate admission (C6)\<close>

lemma add_item_resident: "sm_Has (pm th) (ID x) \<Longrightarrow> add_item th x = th"
  by (simp add: add_item_def Let_def)

text \<open>
  C6. Adding items whose ids are already resident in the price queue leaves the whole
  state unchanged, so the resident item is never displaced; and scenario S1: on a fresh
  mempool \<open>new(max=10, payer_max=5)\<close>, adding two items with the same id and prices 7
  and 9 yields length 1 with the price-7 item at the top.
\<close>

theorem C6_duplicate_add_noop:
  assumes "\<forall>x \<in> set xs. Has th (ID x)"
  shows "Add th xs = th
    \<and> Len (Add (New 10 5 []) [itemA, itemA']) = 1
    \<and> PeekMax (Add (New 10 5 []) [itemA, itemA']) = (itemA, True)"
proof -
  have "foldl add_item th xs = th" using assms
    by (induction xs) (simp_all add: Has_def add_item_resident)
  moreover have "Add (New 10 5 []) [itemA, itemA'] = mempoolA"
    by (simp add: mempoolA_def mempool_defs queue_defs itemA_def itemA'_def)
  ultimately show ?thesis
    by (simp add: Add_def add_def mempoolA_eq Len_def PeekMax_def queue_defs)
qed

theorem C6_duplicate_add_noop_witness:
  "Has mempoolA (ID itemA') \<and> Add mempoolA [itemA'] = mempoolA
    \<and> UnitPrice (fst (PeekMax (Add mempoolA [itemA']))) = 7"
proof -
  have h: "\<forall>x \<in> set [itemA']. Has mempoolA (ID x)"
    by (simp add: mempoolA_eq Has_def queue_defs itemA_def itemA'_def)
  from C6_duplicate_add_noop[OF h] have "Add mempoolA [itemA'] = mempoolA" by simp
  with h show ?thesis
    by (simp add: mempoolA_eq PeekMax_def queue_defs itemA_def)
qed

section \<open>Popping an empty mempool (C10)\<close>

text \<open>
  C10. On a mempool whose price queue is empty, \<open>PopMax\<close> and \<open>PopMin\<close> return the
  zero item with the flag false, and the state they leave (both queues, the payer
  index and the lease set) is the state they were called on. Neither has a failing
  branch.
\<close>

theorem C10_pop_empty:
  assumes "Len th = 0"
  shows "PopMax th = (th, zeroItem, False) \<and> PopMin th = (th, zeroItem, False)"
proof -
  from assms have "pm th = []" by (simp add: Len_def sm_Len_def)
  then show ?thesis
    by (simp add: PopMax_def popMax_def PopMin_def sm_PopMax_def sm_PopMin_def)
qed

theorem C10_pop_empty_witness:
  "Len ((New 10 5 [])\<lparr>leasedItems := Some {|1|}\<rparr>) = 0
    \<and> fst (PopMax ((New 10 5 [])\<lparr>leasedItems := Some {|1|}\<rparr>))
        = (New 10 5 [])\<lparr>leasedItems := Some {|1|}\<rparr>
    \<and> snd (PopMin ((New 10 5 [])\<lparr>leasedItems := Some {|1|}\<rparr>)) = (zeroItem, False)"
proof -
  have h: "Len ((New 10 5 [])\<lparr>leasedItems := Some {|1|}\<rparr>) = 0"
    by (simp add: Len_def New_def queue_defs)
  from C10_pop_empty[OF h] h show ?thesis by simp
qed

section \<open>Empty owned sets (C9)\<close>

text \<open>
  C9, evaluated on the source. With \<open>maxPayerSize = 0\<close> and no exempt payer, \<open>Add\<close> of
  one item to a fresh mempool creates the payer's set (mempool.go:180-184), then skips
  the item because the set has \<open>maxPayerSize\<close> elements (185-187): the item is not
  admitted and the payer index keeps an empty set, which \<open>removeFromOwned\<close> would have
  deleted.
\<close>

theorem C9_empty_owned_set_left_behind:
  "owned (Add (New 10 0 []) [itemA]) ''P'' = Some {||}
    \<and> Len (Add (New 10 0 []) [itemA]) = 0"
  by (simp add: mempool_defs queue_defs itemA_def)

section \<open>Expiry eviction and negative timestamps (C2)\<close>

text \<open>
  C2, evaluated on the source. The time queue is scored by \<open>uint64(item.Expiry())\<close>
  (mempool.go:64) and the threshold is \<open>uint64(t)\<close> (329). An item with expiry \<open>-1\<close>
  has the score \<open>2^64 - 1\<close>: \<open>SetMinTimestamp 0\<close> removes nothing and returns nothing,
  although the item's expiry is below \<open>0\<close> as a signed value.
\<close>

theorem C2_negative_expiry_not_evicted:
  "sint (Expiry itemNeg) < sint (0 :: int64)
    \<and> Has (Add (New 10 5 []) [itemNeg]) (ID itemNeg)
    \<and> SetMinTimestamp (Add (New 10 5 []) [itemNeg]) 0 = (Add (New 10 5 []) [itemNeg], [])"
  by (simp add: mempool_defs queue_defs itemNeg_def sm_SetMinVal.simps)

section \<open>Build with restore and account removal on one item (C1)\<close>

text \<open>
  C1, evaluated on the source. The mempool holds \<open>itemA\<close> of payer \<open>P\<close>; the callback
  answers \<open>(cont, restore, removeAcct, err) = (true, true, true, nil)\<close>. The item is
  popped from the price queue and kept for restoring (mempool.go:366-369),
  \<open>removeAccount\<close> then removes it from the time queue and deletes \<open>owned[P]\<close>
  (374-378), and after the loop it is added back to the price queue (386-388). When
  \<open>Build\<close> returns, the id is in the price queue, not in the time queue and owned by
  nobody.
\<close>

theorem C1_build_restore_remove_account:
  "Build (\<lambda>h x. (True, True, True, None)) mempoolA = (mempoolA\<lparr>tm := [], owned := Map.empty\<rparr>, None)
    \<and> sm_Has (pm (fst (Build (\<lambda>h x. (True, True, True, None)) mempoolA))) (ID itemA)
    \<and> \<not> sm_Has (tm (fst (Build (\<lambda>h x. (True, True, True, None)) mempoolA))) (ID itemA)
    \<and> owned (fst (Build (\<lambda>h x. (True, True, True, None)) mempoolA)) (Payer itemA) = None"
  by (simp add: mempoolA_eq mempool_defs queue_defs itemA_def build_loop.simps)

section \<open>A lease taken while another is outstanding (C3)\<close>

lemma leasedItems_removeFromOwned [simp]:
  "leasedItems (removeFromOwned th x) = leasedItems th"
  by (simp add: removeFromOwned_def Let_def split: option.splits)

lemma leasedItems_popMax [simp]: "leasedItems (fst (popMax th)) = leasedItems th"
  by (simp add: popMax_def Let_def split: prod.splits)

lemma lease_loop_leased:
  "leasedItems th = Some (fset_of_list (map ID txs)) \<Longrightarrow>
   leasedItems (fst (lease_loop th txs n)) = Some (fset_of_list (map ID (snd (lease_loop th txs n))))"
proof (induction n arbitrary: th txs)
  case 0
  then show ?case by simp
next
  case (Suc n)
  obtain th1 x ok where p: "popMax th = (th1, x, ok)" by (cases "popMax th") auto
  have l1: "leasedItems th1 = leasedItems th"
    using leasedItems_popMax[of th] p by simp
  show ?case
  proof (cases ok)
    case False
    then show ?thesis using p l1 Suc.prems by simp
  next
    case True
    let ?th2 = "th1\<lparr>leasedItems :=
        Some (finsert (ID x) (case leasedItems th1 of None \<Rightarrow> {||} | Some l \<Rightarrow> l))\<rparr>"
    have "leasedItems ?th2 = Some (fset_of_list (map ID (txs @ [x])))"
      using l1 Suc.prems by auto
    from Suc.IH[OF this] show ?thesis using p True by simp
  qed
qed

text \<open>
  The claim C3 fails on the source: \<open>LeaseItems\<close> has no check of \<open>leasedItems\<close>. Called
  on \<open>mempoolA\<close> while the lease set \<open>{5}\<close> is outstanding, it returns normally with
  \<open>itemA\<close> and the lease set is now \<open>{1}\<close>.
\<close>

theorem C3_second_lease_counterexample:
  "leasedItems (mempoolA\<lparr>leasedItems := Some {|5|}\<rparr>) = Some {|5|}
    \<and> LeaseItems (mempoolA\<lparr>leasedItems := Some {|5|}\<rparr>) 1
        = Inr (mempoolA\<lparr>pm := [], tm := [], owned := Map.empty, leasedItems := Some {|1|}\<rparr>,
               [itemA])"
  by (simp add: mempoolA_eq mempool_defs queue_defs itemA_def)

text \<open>
  C3 as amended. \<open>LeaseItems\<close> does not look at the lease set it finds: for every
  state and every \<open>count \<ge> 0\<close> it returns normally, with the same result as from the
  state with any other lease set (in particular with none), and the lease set it leaves
  holds exactly the ids of the items it returns.
\<close>

theorem C3_lease_replaces_outstanding_lease:
  assumes "0 \<le> count"
  shows "\<exists>th' txs. LeaseItems th count = Inr (th', txs)
      \<and> leasedItems th' = Some (fset_of_list (map ID txs))
      \<and> LeaseItems (th\<lparr>leasedItems := l\<rparr>) count = Inr (th', txs)"
proof -
  let ?r = "lease_loop (th\<lparr>leasedItems := Some {||}\<rparr>) [] (nat count)"
  have "leasedItems (fst ?r) = Some (fset_of_list (map ID (snd ?r)))"
    by (rule lease_loop_leased) simp
  moreover have "LeaseItems th count = Inr (fst ?r, snd ?r)"
    using assms by (simp add: LeaseItems_def)
  moreover have "LeaseItems (th\<lparr>leasedItems := l\<rparr>) count = Inr (fst ?r, snd ?r)"
    using assms by (simp add: LeaseItems_def)
  ultimately show ?thesis by blast
qed

theorem C3_lease_replaces_outstanding_lease_witness:
  "(0::int) \<le> 1
    \<and> LeaseItems (mempoolA\<lparr>leasedItems := Some {|5|}\<rparr>) 1 = LeaseItems mempoolA 1
    \<and> (\<exists>th' txs. LeaseItems mempoolA 1 = Inr (th', txs)
          \<and> leasedItems th' = Some (fset_of_list (map ID txs)))"
  using C3_lease_replaces_outstanding_lease[of 1 mempoolA "Some {|5|}"] by auto

section \<open>Capacity and eviction of the minimum (C4)\<close>

text \<open>
  C4. In every reachable state, after \<open>Add\<close> of any items the price queue holds at most
  \<open>maxSize\<close> items. Whenever the insertion of an item \<open>x\<close> makes the queue exceed
  \<open>maxSize\<close> (\<open>evicts th x\<close>), an entry \<open>m\<close> of least score in the price queue after the
  insertion is removed from the price queue, the time queue and its payer's set. If
  \<open>x\<close> pays less than every resident item, \<open>x\<close> itself is the one evicted.
\<close>

theorem C4_capacity_and_eviction:
  assumes "reachable th"
  shows "Len (Add th items) \<le> maxSize (Add th items)
    \<and> (evicts th x \<longrightarrow>
         (\<exists>m \<in> set (pm (insert_item th x)).
            (\<forall>e \<in> set (pm (insert_item th x)). score m \<le> score e)
            \<and> add_item th x =
                removeFromOwned
                  ((insert_item th x)\<lparr>pm := sm_Remove (ID (item m)) (pm (insert_item th x)),
                                      tm := sm_Remove (ID (item m)) (tm (insert_item th x))\<rparr>)
                  (item m)
            \<and> \<not> Has (add_item th x) (ID (item m))
            \<and> \<not> sm_Has (tm (add_item th x)) (ID (item m))
            \<and> ID (item m) |\<notin>| owned_fset (add_item th x) (Payer (item m))))
    \<and> (evicts th x \<and> (\<forall>e \<in> set (pm th). UnitPrice x < score e) \<longrightarrow> \<not> Has (add_item th x) (ID x))"
proof -
  have ne: "pm (insert_item th x) \<noteq> []" by (simp add: insert_item_def sm_Add_def)
  have cap: "Len (Add th items) \<le> maxSize (Add th items)"
    using reachable_capacity[OF r_Add[OF assms, of items]] by (simp add: capacity_inv_def)
  have step: "\<exists>m \<in> set (pm (insert_item th x)).
            (\<forall>e \<in> set (pm (insert_item th x)). score m \<le> score e)
            \<and> add_item th x =
                removeFromOwned
                  ((insert_item th x)\<lparr>pm := sm_Remove (ID (item m)) (pm (insert_item th x)),
                                      tm := sm_Remove (ID (item m)) (tm (insert_item th x))\<rparr>)
                  (item m)
            \<and> \<not> Has (add_item th x) (ID (item m))
            \<and> \<not> sm_Has (tm (add_item th x)) (ID (item m))
            \<and> ID (item m) |\<notin>| owned_fset (add_item th x) (Payer (item m))" if ev: "evicts th x"
    using evict_min_result[OF ne] by (simp add: add_item_evicts[OF ev] Has_def)
  have own: "\<not> Has (add_item th x) (ID x)"
    if ev: "evicts th x" and low: "\<forall>e \<in> set (pm th). UnitPrice x < score e"
  proof -
    from step[OF ev] obtain m where m: "m \<in> set (pm (insert_item th x))"
      "\<forall>e \<in> set (pm (insert_item th x)). score m \<le> score e"
      "\<not> Has (add_item th x) (ID (item m))" by blast
    let ?xe = "\<lparr>item = x, score = pmValue x\<rparr>"
    have pm2: "pm (insert_item th x) = pm th @ [?xe]" by (simp add: insert_item_def sm_Add_def)
    from m(2) pm2 have "score m \<le> UnitPrice x" by (simp add: pmValue_def)
    with low have "m \<notin> set (pm th)" by auto
    with m(1) pm2 have "m = ?xe" by simp
    with m(3) show ?thesis by simp
  qed
  from cap step own show ?thesis by blast
qed


theorem C4_capacity_and_eviction_witness:
  "reachable mempoolB1
    \<and> evicts mempoolB1 itemA
    \<and> Len (Add mempoolB1 [itemA]) \<le> 1
    \<and> \<not> Has (add_item mempoolB1 itemA) (ID itemA)"
proof -
  have r: "reachable mempoolB1"
    unfolding mempoolB1_def by (rule r_Add) (rule r_New, simp)
  have ev: "evicts mempoolB1 itemA"
    by (simp add: mempoolB1_eq admission_defs queue_defs itemA_def itemB_def fcard_finsert_if
        fcard_fempty)
  have low: "\<forall>e \<in> set (pm mempoolB1). UnitPrice itemA < score e"
    by (simp add: mempoolB1_eq itemA_def)
  have ms: "maxSize (Add mempoolB1 [itemA]) = 1"
    by (simp add: Add_def add_params mempoolB1_eq)
  from C4_capacity_and_eviction[OF r, of "[itemA]" itemA] r ev low ms show ?thesis by simp
qed

section \<open>Per-payer cap (C5)\<close>

text \<open>A mempool made with the payer cap \<open>-1\<close>, after adding two items of payer \<open>P\<close>.\<close>

definition mempoolNegCap :: Mempool where
  "mempoolNegCap = Add (New 10 (- 1) []) [itemA, itemB]"

lemma mempoolNegCap_eq:
  "mempoolNegCap = \<lparr>maxSize = 10, maxPayerSize = - 1,
      pm = [\<lparr>item = itemA, score = 7\<rparr>, \<lparr>item = itemB, score = 9\<rparr>],
      tm = [\<lparr>item = itemA, score = 100\<rparr>, \<lparr>item = itemB, score = 200\<rparr>],
      owned = [''P'' \<mapsto> {|2, 1|}], exemptPayers = {||}, leasedItems = None\<rparr>"
  by (simp add: mempoolNegCap_def mempool_defs queue_defs itemA_def itemB_def)

text \<open>
  The claim C5 fails on the source for a negative cap: \<open>New\<close> stores \<open>maxPayerSize\<close>
  unchecked and \<open>add\<close> skips an item only when the payer's set has exactly
  \<open>maxPayerSize\<close> elements (mempool.go:185), which no set has when the cap is \<open>-1\<close>. The
  state below is reachable, \<open>P\<close> is not exempt and owns two ids.
\<close>

theorem C5_negative_cap_counterexample:
  "reachable mempoolNegCap
    \<and> ''P'' |\<notin>| exemptPayers mempoolNegCap
    \<and> maxPayerSize mempoolNegCap = - 1
    \<and> fcard (owned_fset mempoolNegCap ''P'') = 2
    \<and> \<not> int (fcard (owned_fset mempoolNegCap ''P'')) \<le> maxPayerSize mempoolNegCap"
proof -
  have r: "reachable mempoolNegCap"
    unfolding mempoolNegCap_def by (rule r_Add) (rule r_New, simp)
  then show ?thesis
    by (simp add: mempoolNegCap_eq owned_fset_def fcard_finsert_if fcard_fempty)
qed

text \<open>
  C5 as amended. In every reachable state of a mempool made with \<open>maxPayerSize \<ge> 0\<close>, a
  payer that is not exempt owns at most \<open>maxPayerSize\<close> ids. An item whose non-exempt payer already
  owns \<open>maxPayerSize\<close> ids is skipped: both queues and every payer's id set are as
  before. Scenario S4: with \<open>P\<close> exempt and \<open>maxPayerSize = 1\<close>, \<open>P\<close> owns two ids.
\<close>

theorem C5_payer_cap:
  assumes "reachable th" and "0 \<le> maxPayerSize th" and "p |\<notin>| exemptPayers th"
  shows "int (fcard (owned_fset th p)) \<le> maxPayerSize th
    \<and> (payer_full th x \<longrightarrow>
          pm (add_item th x) = pm th \<and> tm (add_item th x) = tm th
          \<and> owned_fset (add_item th x) = owned_fset th)
    \<and> ''P'' |\<in>| exemptPayers mempoolExempt
    \<and> maxPayerSize mempoolExempt = 1
    \<and> fcard (owned_fset mempoolExempt ''P'') = 2"
proof -
  have "int (fcard (owned_fset th p)) \<le> maxPayerSize th"
    using reachable_payer_cap[OF assms(1,2)] assms(3) by (simp add: payer_cap_inv_def)
  moreover have "pm (add_item th x) = pm th \<and> tm (add_item th x) = tm th
          \<and> owned_fset (add_item th x) = owned_fset th" if "payer_full th x"
    using that by (simp add: add_item_skipped admitted_def)
  ultimately show ?thesis
    by (simp add: mempoolExempt_eq owned_fset_def fcard_finsert_if fcard_fempty)
qed

theorem C5_payer_cap_witness:
  "reachable mempoolCap
    \<and> 0 \<le> maxPayerSize mempoolCap
    \<and> ''P'' |\<notin>| exemptPayers mempoolCap
    \<and> payer_full mempoolCap itemB
    \<and> int (fcard (owned_fset mempoolCap ''P'')) \<le> 1
    \<and> pm (add_item mempoolCap itemB) = pm mempoolCap"
proof -
  have r: "reachable mempoolCap"
    unfolding mempoolCap_def by (rule r_Add) (rule r_New, simp)
  have h2: "0 \<le> maxPayerSize mempoolCap" by (simp add: mempoolCap_eq)
  have h3: "''P'' |\<notin>| exemptPayers mempoolCap" by (simp add: mempoolCap_eq)
  have pf: "payer_full mempoolCap itemB"
    by (simp add: mempoolCap_eq admission_defs itemB_def fcard_finsert_if fcard_fempty)
  from C5_payer_cap[OF r h2 h3, of itemB] r h2 h3 pf show ?thesis
    by (simp add: mempoolCap_eq)
qed

section \<open>Add followed by Remove (C8)\<close>

text \<open>
  \<open>no_eviction th xs\<close>: while \<open>add\<close> runs over \<open>xs\<close> from \<open>th\<close>, no iteration takes the
  eviction branch (mempool.go:193-198).
\<close>

fun no_eviction :: "Mempool \<Rightarrow> Item list \<Rightarrow> bool" where
  "no_eviction th [] = True"
| "no_eviction th (x # xs) = (\<not> evicts th x \<and> no_eviction (add_item th x) xs)"

text \<open>The effect of one \<open>removeFromOwned\<close> on the entry of the payer.\<close>

definition rem_id :: "ID \<Rightarrow> ID fset option \<Rightarrow> ID fset option" where
  "rem_id i o' = (case o' of None \<Rightarrow> None
                  | Some S \<Rightarrow> if S |-| {|i|} = {||} then None else Some (S |-| {|i|}))"

text \<open>The effect of removing, one after the other, every id of \<open>D\<close> (lemma \<open>foldl_rem_id\<close>).\<close>

definition strip_ids :: "ID fset \<Rightarrow> ID fset option \<Rightarrow> ID fset option" where
  "strip_ids D o' = (case o' of None \<Rightarrow> None
                  | Some S \<Rightarrow> if S |-| D = {||} then None else Some (S |-| D))"

lemma owned_removeFromOwned:
  "owned (removeFromOwned th x) p = (if p = Payer x then rem_id (ID x) (owned th p) else owned th p)"
  by (auto simp: removeFromOwned_def rem_id_def Let_def fcard_0_eq split: option.splits)

lemma owned_remove_item:
  "owned (remove_item th x) p = (if p = Payer x then rem_id (ID x) (owned th p) else owned th p)"
  by (simp add: remove_item_def owned_removeFromOwned)

lemma foldl_rem_id_None [simp]: "foldl (\<lambda>o' i. rem_id i o') None is = None"
  by (induction "is") (simp_all add: rem_id_def)

lemma foldl_rem_id:
  "is \<noteq> [] \<Longrightarrow> foldl (\<lambda>o' i. rem_id i o') o' is = strip_ids (fset_of_list is) o'"
proof (induction "is" arbitrary: o')
  case Nil
  then show ?case by simp
next
  case (Cons i "is")
  show ?case
  proof (cases o')
    case None
    have "rem_id i None = None" by (simp add: rem_id_def)
    then show ?thesis by (simp add: None strip_ids_def)
  next
    case (Some S)
    show ?thesis
    proof (cases "is = []")
      case True
      then show ?thesis by (simp add: Some rem_id_def strip_ids_def)
    next
      case False
      from Cons.IH[OF False]
      have "foldl (\<lambda>o' i. rem_id i o') (rem_id i (Some S)) is = strip_ids (fset_of_list is) (rem_id i (Some S))" .
      moreover have "strip_ids (fset_of_list is) (rem_id i (Some S)) = strip_ids (fset_of_list (i # is)) (Some S)"
        by (auto simp: rem_id_def strip_ids_def)
      ultimately show ?thesis by (simp add: Some)
    qed
  qed
qed

lemma owned_Remove:
  "owned (Remove th xs) p =
     foldl (\<lambda>o' i. rem_id i o') (owned th p) (map ID (filter (\<lambda>x. Payer x = p) xs))"
  unfolding Remove_def
  by (induction xs arbitrary: th) (simp_all add: owned_remove_item)

lemma pm_remove_item [simp]: "pm (remove_item th x) = sm_Remove (ID x) (pm th)"
  by (simp add: remove_item_def)

lemma tm_remove_item [simp]: "tm (remove_item th x) = sm_Remove (ID x) (tm th)"
  by (simp add: remove_item_def)

lemma pm_Remove: "pm (Remove th xs) = filter (\<lambda>e. ID (item e) \<notin> ID ` set xs) (pm th)"
  unfolding Remove_def
proof (induction xs arbitrary: th)
  case Nil
  show ?case by simp
next
  case (Cons x xs)
  show ?case by (simp add: Cons.IH sm_Remove_def)
qed

lemma tm_Remove: "tm (Remove th xs) = filter (\<lambda>e. ID (item e) \<notin> ID ` set xs) (tm th)"
  unfolding Remove_def
proof (induction xs arbitrary: th)
  case Nil
  show ?case by simp
next
  case (Cons x xs)
  show ?case by (simp add: Cons.IH sm_Remove_def)
qed

text \<open>The ids of the items of \<open>xs\<close> that payer \<open>p\<close> pays for.\<close>

definition ids_of_payer :: "Item list \<Rightarrow> string \<Rightarrow> ID fset" where
  "ids_of_payer xs p = fset_of_list (map ID (filter (\<lambda>x. Payer x = p) xs))"

text \<open>
  \<open>fresh_ids th xs\<close>: no id of \<open>xs\<close> is resident in \<open>th\<close>, in neither queue and in no
  payer's set. \<open>owned_hygiene th\<close>: the payer index holds no empty set.
\<close>

definition fresh_ids :: "Mempool \<Rightarrow> Item list \<Rightarrow> bool" where
  "fresh_ids th xs \<longleftrightarrow>
     (\<forall>x \<in> set xs. \<not> sm_Has (pm th) (ID x) \<and> \<not> sm_Has (tm th) (ID x)
                   \<and> (\<forall>p. ID x |\<notin>| owned_fset th p))"

definition owned_hygiene :: "Mempool \<Rightarrow> bool" where
  "owned_hygiene th \<longleftrightarrow> (\<forall>p. owned th p \<noteq> Some {||})"

text \<open>
  \<open>added_only xs th th'\<close>: \<open>th'\<close> is \<open>th\<close> with entries added whose ids are ids of \<open>xs\<close>;
  a payer's set has grown by ids of its own items in \<open>xs\<close> only, and the entry of a payer
  without items in \<open>xs\<close> is untouched. This is what \<open>add\<close> leaves when it evicts nothing.
\<close>

definition added_only :: "Item list \<Rightarrow> Mempool \<Rightarrow> Mempool \<Rightarrow> bool" where
  "added_only xs th th' \<longleftrightarrow>
     maxSize th' = maxSize th \<and> maxPayerSize th' = maxPayerSize th
     \<and> exemptPayers th' = exemptPayers th \<and> leasedItems th' = leasedItems th
     \<and> filter (\<lambda>e. ID (item e) \<notin> ID ` set xs) (pm th') = pm th
     \<and> filter (\<lambda>e. ID (item e) \<notin> ID ` set xs) (tm th') = tm th
     \<and> (\<forall>p. owned_fset th p |\<subseteq>| owned_fset th' p
            \<and> owned_fset th' p |\<subseteq>| owned_fset th p |\<union>| ids_of_payer xs p
            \<and> (owned th' p = None \<longrightarrow> owned th p = None)
            \<and> (ids_of_payer xs p = {||} \<longrightarrow> owned th' p = owned th p))"

lemma added_only_init: "fresh_ids th xs \<Longrightarrow> added_only xs th th"
  unfolding added_only_def fresh_ids_def sm_Has_def sm_ids_def filter_id_conv
  by (simp add: image_iff) metis

lemma add_item_skipped_owned:
  assumes "\<not> admitted th x"
  shows "(\<forall>p. p \<noteq> Payer x \<longrightarrow> owned (add_item th x) p = owned th p)
       \<and> (owned (add_item th x) (Payer x) = None \<longrightarrow> owned th (Payer x) = None)"
  using assms
  by (auto simp: admitted_def lease_blocked_def payer_full_def add_item_def Let_def owned_fset_def
      split: option.splits)

lemma ids_of_payer_mem: "x \<in> set xs \<Longrightarrow> ID x |\<in>| ids_of_payer xs (Payer x)"
  by (auto simp: ids_of_payer_def fset_of_list.rep_eq)

lemma added_only_step:
  assumes a: "added_only xs th th'" and x: "x \<in> set xs" and ne: "\<not> evicts th' x"
  shows "added_only xs th (add_item th' x)"
proof (cases "admitted th' x")
  case False
  note sk = add_item_skipped[OF False] add_item_skipped_owned[OF False]
  have np: "ids_of_payer xs (Payer x) \<noteq> {||}" using ids_of_payer_mem[OF x] by auto
  show ?thesis
    unfolding added_only_def
  proof (intro conjI allI)
    fix p
    show "owned (add_item th' x) p = None \<longrightarrow> owned th p = None"
      using a sk(2) by (cases "p = Payer x") (auto simp: added_only_def)
    show "ids_of_payer xs p = {||} \<longrightarrow> owned (add_item th' x) p = owned th p"
      using a sk(2) np by (cases "p = Payer x") (auto simp: added_only_def)
  qed (use a sk(1) in \<open>simp_all add: added_only_def\<close>)
next
  case True
  from add_item_admitted[OF True ne] have eq: "add_item th' x = insert_item th' x" .
  have np: "ids_of_payer xs (Payer x) \<noteq> {||}" using ids_of_payer_mem[OF x] by auto
  have of: "owned_fset (insert_item th' x) p =
      (if p = Payer x then finsert (ID x) (owned_fset th' p) else owned_fset th' p)" for p
    by (simp add: insert_item_def owned_fset_def)
  show ?thesis
    unfolding added_only_def eq
  proof (intro conjI allI)
    fix p
    show "owned_fset th p |\<subseteq>| owned_fset (insert_item th' x) p"
      using a by (auto simp: of added_only_def)
    show "owned_fset (insert_item th' x) p |\<subseteq>| owned_fset th p |\<union>| ids_of_payer xs p"
      using a ids_of_payer_mem[OF x] by (auto simp: of added_only_def)
    show "owned (insert_item th' x) p = None \<longrightarrow> owned th p = None"
      using a by (auto simp: insert_item_def added_only_def)
    show "ids_of_payer xs p = {||} \<longrightarrow> owned (insert_item th' x) p = owned th p"
      using a np by (auto simp: insert_item_def added_only_def)
  qed (use a x in \<open>simp_all add: added_only_def insert_item_def sm_Add_def\<close>)
qed

lemma added_only_add:
  assumes "added_only xs th th'" and "set ys \<subseteq> set xs" and "no_eviction th' ys"
  shows "added_only xs th (foldl add_item th' ys)"
  using assms
proof (induction ys arbitrary: th')
  case Nil
  then show ?case by simp
next
  case (Cons y ys)
  from Cons.prems have "added_only xs th (add_item th' y)"
    by (intro added_only_step) simp_all
  with Cons.prems show ?case by (simp add: Cons.IH)
qed

lemma leasedItems_remove_item [simp]: "leasedItems (remove_item th x) = leasedItems th"
  by (simp add: remove_item_def)

lemma leasedItems_Remove [simp]: "leasedItems (Remove th xs) = leasedItems th"
  unfolding Remove_def by (induction xs arbitrary: th) simp_all

lemma removed_all:
  assumes a: "added_only xs th th'" and f: "fresh_ids th xs" and h: "owned_hygiene th"
  shows "Remove th' xs = th"
proof (rule Mempool.equality)
  note fr = frame_Remove[of th' xs]
  show "maxSize (Remove th' xs) = maxSize th" "maxPayerSize (Remove th' xs) = maxPayerSize th"
    "exemptPayers (Remove th' xs) = exemptPayers th"
    using fr a by (simp_all add: frame_def added_only_def)
  show "leasedItems (Remove th' xs) = leasedItems th" using a by (simp add: added_only_def)
  show "pm (Remove th' xs) = pm th" using a by (simp add: pm_Remove added_only_def)
  show "tm (Remove th' xs) = tm th" using a by (simp add: tm_Remove added_only_def)
  show "owned (Remove th' xs) = owned th"
  proof
    fix p
    let ?is = "map ID (filter (\<lambda>x. Payer x = p) xs)"
    let ?D = "ids_of_payer xs p"
    from a have sub: "owned_fset th p |\<subseteq>| owned_fset th' p"
      "owned_fset th' p |\<subseteq>| owned_fset th p |\<union>| ?D"
      and none: "owned th' p = None \<Longrightarrow> owned th p = None"
      and same: "?D = {||} \<Longrightarrow> owned th' p = owned th p"
      by (simp_all add: added_only_def)
    have disj: "owned_fset th p |\<inter>| ?D = {||}"
      using f by (auto simp: fresh_ids_def ids_of_payer_def fset_of_list.rep_eq)
    have diff: "owned_fset th' p |-| ?D = owned_fset th p"
      using sub disj by auto
    show "owned (Remove th' xs) p = owned th p"
    proof (cases "?is = []")
      case True
      then have "?D = {||}" by (simp add: ids_of_payer_def)
      with True same show ?thesis by (simp add: owned_Remove)
    next
      case False
      then have r: "owned (Remove th' xs) p = strip_ids ?D (owned th' p)"
        by (simp add: owned_Remove foldl_rem_id ids_of_payer_def)
      show ?thesis
      proof (cases "owned th' p")
        case None
        with none r show ?thesis by (simp add: strip_ids_def)
      next
        case (Some S')
        then have S': "owned_fset th' p = S'" by (simp add: owned_fset_def)
        show ?thesis
        proof (cases "owned th p")
          case None
          then have "owned_fset th p = {||}" by (simp add: owned_fset_def)
          with diff S' r Some None show ?thesis by (simp add: strip_ids_def)
        next
          case (Some S)
          with h have "S \<noteq> {||}" by (auto simp: owned_hygiene_def)
          moreover from Some have "owned_fset th p = S" by (simp add: owned_fset_def)
          ultimately show ?thesis using diff S' r \<open>owned th' p = Some S'\<close> Some
            by (simp add: strip_ids_def)
        qed
      qed
    qed
  qed
qed simp

text \<open>
  The claim C8 fails on the source when an id of \<open>xs\<close> is already resident: \<open>add\<close> skips
  the item and \<open>Remove\<close> then removes the resident one. \<open>mempoolA\<close> holds \<open>itemA\<close>; adding
  and removing \<open>[itemA]\<close> evicts nothing and leaves the mempool empty.
\<close>

theorem C8_roundtrip_counterexample:
  "no_eviction mempoolA [itemA]
    \<and> Has mempoolA (ID itemA)
    \<and> \<not> Has (Remove (Add mempoolA [itemA]) [itemA]) (ID itemA)
    \<and> Remove (Add mempoolA [itemA]) [itemA] \<noteq> mempoolA"
proof -
  have a: "Add mempoolA [itemA] = mempoolA"
    by (simp add: Add_def add_def add_item_resident mempoolA_eq queue_defs)
  have n: "no_eviction mempoolA [itemA]"
    by (simp add: admission_defs mempoolA_eq queue_defs)
  have h: "Has mempoolA (ID itemA)" by (simp add: Has_def mempoolA_eq queue_defs)
  have r: "\<not> Has (Remove mempoolA [itemA]) (ID itemA)"
    by (auto simp: Has_def pm_Remove sm_Has_def sm_ids_def)
  from r h have "Remove mempoolA [itemA] \<noteq> mempoolA" by auto
  with n h r show ?thesis by (simp add: a)
qed

text \<open>
  C8 as amended. If no id of \<open>xs\<close> is resident in \<open>th\<close> (in neither queue and in no
  payer's set), the payer index of \<open>th\<close> has no empty set, and no eviction occurs during
  the add, then \<open>Add th xs\<close> followed by \<open>Remove\<close> of the same \<open>xs\<close> gives back \<open>th\<close>: both
  queues, the payer index and all other fields.
\<close>

theorem C8_add_remove_roundtrip:
  assumes "fresh_ids th xs" and "owned_hygiene th" and "no_eviction th xs"
  shows "Remove (Add th xs) xs = th"
proof -
  have "added_only xs th (foldl add_item th xs)"
    by (rule added_only_add[OF added_only_init[OF assms(1)] subset_refl assms(3)])
  then show ?thesis
    unfolding Add_def add_def by (rule removed_all[OF _ assms(1,2)])
qed


theorem C8_add_remove_roundtrip_witness:
  "fresh_ids mempoolA [itemB] \<and> owned_hygiene mempoolA \<and> no_eviction mempoolA [itemB]
    \<and> Has (Add mempoolA [itemB]) (ID itemB)
    \<and> Remove (Add mempoolA [itemB]) [itemB] = mempoolA"
proof -
  have f: "fresh_ids mempoolA [itemB]"
    by (simp add: fresh_ids_def mempoolA_eq queue_defs owned_fset_def itemA_def itemB_def)
  have h: "owned_hygiene mempoolA" by (simp add: owned_hygiene_def mempoolA_eq)
  have n: "no_eviction mempoolA [itemB]"
    by (simp add: admission_defs mempoolA_eq queue_defs)
  have i: "Has (Add mempoolA [itemB]) (ID itemB)"
    by (simp add: mempool_defs mempoolA_eq queue_defs itemA_def itemB_def)
  from C8_add_remove_roundtrip[OF f h n] f h n i show ?thesis by simp
qed

section \<open>Restore and consume in Build (C7)\<close>

lemma set_sm_Remove [simp]: "set (sm_Remove i sm) = {e \<in> set sm. ID (item e) \<noteq> i}"
  by (auto simp: sm_Remove_def)

lemma set_sm_RemoveAll [simp]: "set (sm_RemoveAll A sm) = {e \<in> set sm. ID (item e) |\<notin>| A}"
  by (auto simp: sm_RemoveAll_def)

lemma sm_RemoveAll_empty [simp]: "sm_RemoveAll {||} sm = sm"
  by (simp add: sm_RemoveAll_def)

lemma sm_Has_iff: "sm_Has sm i \<longleftrightarrow> (\<exists>e \<in> set sm. ID (item e) = i)"
  by (auto simp: sm_Has_def sm_ids_def)

lemma removeAccount_fields:
  "pm (removeAccount th p) = sm_RemoveAll (owned_fset th p) (pm th)"
  "tm (removeAccount th p) = sm_RemoveAll (owned_fset th p) (tm th)"
  "owned_fset (removeAccount th p) q = (if q = p then {||} else owned_fset th q)"
  by (simp_all add: removeAccount_def owned_fset_def split: option.splits)

text \<open>What one iteration of the loop of \<open>Build\<close> does to the queues and the payer index.\<close>

lemma build_step_result:
  assumes ne: "pm t \<noteq> []" and s: "build_step f t tr rs = (t', tr', rs', stop, e)"
  obtains m c r ra fe A where
    "m \<in> set (pm t)" "\<forall>e \<in> set (pm t). score e \<le> score m"
    "f (map fst tr) (item m) = (c, r, ra, fe)"
    "tr' = tr @ [(item m, c, r, ra, fe)]"
    "rs' = (if r then rs @ [item m] else rs)"
    "A = (if ra then (if r then owned_fset t (Payer (item m))
                      else owned_fset t (Payer (item m)) |-| {|ID (item m)|}) else {||})"
    "pm t' = sm_RemoveAll A (sm_Remove (ID (item m)) (pm t))"
    "tm t' = sm_RemoveAll A (if r then tm t else sm_Remove (ID (item m)) (tm t))"
    "\<And>p. owned_fset t' p =
        (if ra \<and> p = Payer (item m) then {||}
         else if \<not> r \<and> p = Payer (item m) then owned_fset t p |-| {|ID (item m)|}
         else owned_fset t p)"
proof -
  from sm_PopMax_nonempty[OF ne] obtain m where m: "m \<in> set (pm t)"
    "\<forall>e \<in> set (pm t). score e \<le> score m"
    "sm_PopMax (pm t) = (item m, True, sm_Remove (ID (item m)) (pm t))" by blast
  obtain c r ra fe where v: "f (map fst tr) (item m) = (c, r, ra, fe)"
    by (cases "f (map fst tr) (item m)") auto
  define th2 where "th2 = (if r then t\<lparr>pm := sm_Remove (ID (item m)) (pm t)\<rparr>
      else removeFromOwned (t\<lparr>pm := sm_Remove (ID (item m)) (pm t),
                              tm := sm_Remove (ID (item m)) (tm t)\<rparr>) (item m))"
  define A where "A = (if ra then (if r then owned_fset t (Payer (item m))
                      else owned_fset t (Payer (item m)) |-| {|ID (item m)|}) else {||})"
  have t': "t' = (if ra then removeAccount th2 (Payer (item m)) else th2)"
    and tr': "tr' = tr @ [(item m, c, r, ra, fe)]"
    and rs': "rs' = (if r then rs @ [item m] else rs)"
    using s by (auto simp add: build_step_eq[where f = f, OF m(3) v] Let_def th2_def)
  have o2: "owned_fset th2 p = (if \<not> r \<and> p = Payer (item m)
        then owned_fset t p |-| {|ID (item m)|} else owned_fset t p)" for p
    by (simp add: th2_def owned_fset_removeFromOwned) (simp add: owned_fset_def)
  have p2: "pm th2 = sm_Remove (ID (item m)) (pm t)" by (simp add: th2_def)
  have t2: "tm th2 = (if r then tm t else sm_Remove (ID (item m)) (tm t))" by (simp add: th2_def)
  have A2: "ra \<Longrightarrow> A = owned_fset th2 (Payer (item m))" by (simp add: A_def o2)
  have 1: "pm t' = sm_RemoveAll A (sm_Remove (ID (item m)) (pm t))"
    using A2 by (cases ra) (simp_all add: t' removeAccount_fields p2 A_def)
  have 2: "tm t' = sm_RemoveAll A (if r then tm t else sm_Remove (ID (item m)) (tm t))"
    using A2 by (cases ra) (simp_all add: t' removeAccount_fields t2 A_def)
  have 3: "owned_fset t' p =
        (if ra \<and> p = Payer (item m) then {||}
         else if \<not> r \<and> p = Payer (item m) then owned_fset t p |-| {|ID (item m)|}
         else owned_fset t p)" for p
    by (cases ra) (simp_all add: t' removeAccount_fields o2)
  show thesis by (rule that[OF m(1,2) v tr' rs' A_def 1 2 3])
qed


text \<open>The \<open>restore\<close> and \<open>removeAcct\<close> answers of an entry of the trace.\<close>

definition v_restore :: "Item \<times> verdict \<Rightarrow> bool" where
  "v_restore v = fst (snd (snd v))"

definition v_removeAcct :: "Item \<times> verdict \<Rightarrow> bool" where
  "v_removeAcct v = fst (snd (snd (snd v)))"

lemma v_simps [simp]:
  "v_restore (x, c, r, ra, fe) = r" "v_removeAcct (x, c, r, ra, fe) = ra"
  by (simp_all add: v_restore_def v_removeAcct_def)

text \<open>
  \<open>pm_wellformed th\<close>: every item of the price queue is in the time queue and is owned by
  its payer and by no other payer.
\<close>

definition pm_wellformed :: "Mempool \<Rightarrow> bool" where
  "pm_wellformed th \<longleftrightarrow>
     (\<forall>e \<in> set (pm th). sm_Has (tm th) (ID (item e))
        \<and> (\<forall>q. ID (item e) |\<in>| owned_fset th q \<longleftrightarrow> q = Payer (item e)))"

text \<open>
  What holds of the loop state \<open>(t, tr, rs)\<close> of \<open>Build\<close> started in \<open>th0\<close>, whatever the
  callback answers: the price queue and the id sets only shrink, every popped id is
  popped once and is no longer in the price queue, a consumed item is in neither the time
  queue nor its payer's set, and the items to restore are those answered \<open>restore\<close>.
\<close>

definition build_inv :: "Mempool \<Rightarrow> Mempool \<Rightarrow> (Item \<times> verdict) list \<Rightarrow> Item list \<Rightarrow> bool" where
  "build_inv th0 t tr rs \<longleftrightarrow>
     set (pm t) \<subseteq> set (pm th0)
     \<and> (\<forall>p. owned_fset t p |\<subseteq>| owned_fset th0 p)
     \<and> distinct (map (\<lambda>v. ID (fst v)) tr)
     \<and> (\<forall>v \<in> set tr. \<not> sm_Has (pm t) (ID (fst v)) \<and> fst v \<in> item ` set (pm th0))
     \<and> (\<forall>v \<in> set tr. \<not> v_restore v \<longrightarrow>
            \<not> sm_Has (tm t) (ID (fst v)) \<and> ID (fst v) |\<notin>| owned_fset t (Payer (fst v)))
     \<and> set rs = fst ` {v \<in> set tr. v_restore v}"

text \<open>
  What holds in addition when \<open>th0\<close> is well-formed: the items still in the price queue
  are in the time queue and with their payer, and so is every item answered \<open>restore\<close>
  whose payer has had no \<open>removeAcct\<close> answer so far.
\<close>

definition restore_inv :: "Mempool \<Rightarrow> (Item \<times> verdict) list \<Rightarrow> bool" where
  "restore_inv t tr \<longleftrightarrow>
     (\<forall>e \<in> set (pm t). sm_Has (tm t) (ID (item e))
         \<and> ID (item e) |\<in>| owned_fset t (Payer (item e)))
     \<and> (\<forall>v \<in> set tr.
           v_restore v \<and> (\<forall>w \<in> set tr. v_removeAcct w \<longrightarrow> Payer (fst w) \<noteq> Payer (fst v))
           \<longrightarrow> sm_Has (tm t) (ID (fst v)) \<and> ID (fst v) |\<in>| owned_fset t (Payer (fst v)))"

lemma build_inv_step:
  assumes i: "build_inv th0 t tr rs" and ne: "pm t \<noteq> []"
    and s: "build_step f t tr rs = (t', tr', rs', stop, e)"
  shows "build_inv th0 t' tr' rs'"
proof (rule build_step_result[OF ne s])
  fix m c r ra fe A
  assume b1: "m \<in> set (pm t)"
    and "\<forall>e \<in> set (pm t). score e \<le> score m"
    and "f (map fst tr) (item m) = (c, r, ra, fe)"
    and b2: "tr' = tr @ [(item m, c, r, ra, fe)]"
    and b3: "rs' = (if r then rs @ [item m] else rs)"
    and "A = (if ra then (if r then owned_fset t (Payer (item m))
                      else owned_fset t (Payer (item m)) |-| {|ID (item m)|}) else {||})"
    and b4: "pm t' = sm_RemoveAll A (sm_Remove (ID (item m)) (pm t))"
    and b5: "tm t' = sm_RemoveAll A (if r then tm t else sm_Remove (ID (item m)) (tm t))"
    and b6: "\<And>p. owned_fset t' p =
        (if ra \<and> p = Payer (item m) then {||}
         else if \<not> r \<and> p = Payer (item m) then owned_fset t p |-| {|ID (item m)|}
         else owned_fset t p)"
  from i have i1: "set (pm t) \<subseteq> set (pm th0)"
    and i2: "\<forall>p. owned_fset t p |\<subseteq>| owned_fset th0 p"
    and i3: "distinct (map (\<lambda>v. ID (fst v)) tr)"
    and i4: "\<forall>v \<in> set tr. \<not> sm_Has (pm t) (ID (fst v)) \<and> fst v \<in> item ` set (pm th0)"
    and i5: "\<forall>v \<in> set tr. \<not> v_restore v \<longrightarrow>
            \<not> sm_Has (tm t) (ID (fst v)) \<and> ID (fst v) |\<notin>| owned_fset t (Payer (fst v))"
    and i6: "set rs = fst ` {v \<in> set tr. v_restore v}"
    by (simp_all add: build_inv_def)
  have sub: "owned_fset t' p |\<subseteq>| owned_fset t p" for p by (auto simp: b6)
  have pm_sub: "set (pm t') \<subseteq> set (pm t)" by (auto simp: b4)
  have tm_sub: "set (tm t') \<subseteq> set (tm t)" by (auto simp: b5)
  have n1: "set (pm t') \<subseteq> set (pm th0)" using i1 pm_sub by blast
  have n2: "\<forall>p. owned_fset t' p |\<subseteq>| owned_fset th0 p"
  proof
    fix p show "owned_fset t' p |\<subseteq>| owned_fset th0 p"
      using sub[of p] i2 by (meson order_trans)
  qed
  have m_in: "sm_Has (pm t) (ID (item m))" using b1 by (auto simp: sm_Has_iff)
  have fresh: "ID (item m) \<notin> (\<lambda>v. ID (fst v)) ` set tr"
  proof
    assume "ID (item m) \<in> (\<lambda>v. ID (fst v)) ` set tr"
    then obtain v where "v \<in> set tr" "ID (fst v) = ID (item m)" by auto
    with i4 m_in show False by auto
  qed
  have n3: "distinct (map (\<lambda>v. ID (fst v)) tr')" using i3 fresh by (simp add: b2)
  have m_out: "\<not> sm_Has (pm t') (ID (item m))" by (auto simp: b4 sm_Has_iff)
  have n4: "\<forall>v \<in> set tr'. \<not> sm_Has (pm t') (ID (fst v)) \<and> fst v \<in> item ` set (pm th0)"
  proof
    fix v assume "v \<in> set tr'"
    then consider "v \<in> set tr" | "v = (item m, c, r, ra, fe)" by (auto simp: b2)
    then show "\<not> sm_Has (pm t') (ID (fst v)) \<and> fst v \<in> item ` set (pm th0)"
    proof cases
      case 1
      with i4 have "\<not> sm_Has (pm t) (ID (fst v))" "fst v \<in> item ` set (pm th0)" by auto
      with pm_sub show ?thesis by (auto simp: sm_Has_iff)
    next
      case 2
      with m_out b1 i1 show ?thesis by auto
    qed
  qed
  have n5: "\<forall>v \<in> set tr'. \<not> v_restore v \<longrightarrow>
            \<not> sm_Has (tm t') (ID (fst v)) \<and> ID (fst v) |\<notin>| owned_fset t' (Payer (fst v))"
  proof (intro ballI impI)
    fix v assume "v \<in> set tr'" and nr: "\<not> v_restore v"
    then consider "v \<in> set tr" | "v = (item m, c, r, ra, fe)" by (auto simp: b2)
    then show "\<not> sm_Has (tm t') (ID (fst v)) \<and> ID (fst v) |\<notin>| owned_fset t' (Payer (fst v))"
    proof cases
      case 1
      with i5 nr have "\<not> sm_Has (tm t) (ID (fst v))"
        "ID (fst v) |\<notin>| owned_fset t (Payer (fst v))" by auto
      with tm_sub sub[of "Payer (fst v)"] show ?thesis by (auto simp: sm_Has_iff)
    next
      case 2
      with nr have "\<not> r" by simp
      then have "\<not> sm_Has (tm t') (ID (item m))" by (auto simp: b5 sm_Has_iff)
      moreover from \<open>\<not> r\<close> have "ID (item m) |\<notin>| owned_fset t' (Payer (item m))"
        by (simp add: b6)
      ultimately show ?thesis using 2 by simp
    qed
  qed
  have "{v \<in> set tr'. v_restore v} =
      {v \<in> set tr. v_restore v} \<union> (if r then {(item m, c, r, ra, fe)} else {})"
    by (auto simp: b2)
  then have n6: "set rs' = fst ` {v \<in> set tr'. v_restore v}"
    using i6 by (simp add: b3 image_Un)
  show ?thesis
    unfolding build_inv_def by (intro conjI n1 n2 n3 n4 n5 n6)
qed

lemma restore_inv_step:
  assumes wf: "pm_wellformed th0" and i: "build_inv th0 t tr rs" and j: "restore_inv t tr"
    and ne: "pm t \<noteq> []" and s: "build_step f t tr rs = (t', tr', rs', stop, e)"
  shows "restore_inv t' tr'"
proof (rule build_step_result[OF ne s])
  fix m c r ra fe A
  assume b1: "m \<in> set (pm t)"
    and "\<forall>e \<in> set (pm t). score e \<le> score m"
    and "f (map fst tr) (item m) = (c, r, ra, fe)"
    and b2: "tr' = tr @ [(item m, c, r, ra, fe)]"
    and "rs' = (if r then rs @ [item m] else rs)"
    and b3: "A = (if ra then (if r then owned_fset t (Payer (item m))
                      else owned_fset t (Payer (item m)) |-| {|ID (item m)|}) else {||})"
    and b4: "pm t' = sm_RemoveAll A (sm_Remove (ID (item m)) (pm t))"
    and b5: "tm t' = sm_RemoveAll A (if r then tm t else sm_Remove (ID (item m)) (tm t))"
    and b6: "\<And>p. owned_fset t' p =
        (if ra \<and> p = Payer (item m) then {||}
         else if \<not> r \<and> p = Payer (item m) then owned_fset t p |-| {|ID (item m)|}
         else owned_fset t p)"
  from i have i2: "\<forall>p. owned_fset t p |\<subseteq>| owned_fset th0 p"
    and i4: "\<forall>v \<in> set tr. \<not> sm_Has (pm t) (ID (fst v)) \<and> fst v \<in> item ` set (pm th0)"
    by (simp_all add: build_inv_def)
  from j have k: "\<forall>e \<in> set (pm t). sm_Has (tm t) (ID (item e))
         \<and> ID (item e) |\<in>| owned_fset t (Payer (item e))"
    and h: "\<forall>v \<in> set tr.
           v_restore v \<and> (\<forall>w \<in> set tr. v_removeAcct w \<longrightarrow> Payer (fst w) \<noteq> Payer (fst v))
           \<longrightarrow> sm_Has (tm t) (ID (fst v)) \<and> ID (fst v) |\<in>| owned_fset t (Payer (fst v))"
    by (simp_all add: restore_inv_def)
  have A_sub: "A |\<subseteq>| owned_fset t (Payer (item m))" by (auto simp: b3)
  have A_ra: "ra" if "i |\<in>| A" for i using that by (auto simp: b3 split: if_splits)
  have A_all: "i |\<in>| A" if "ra" "i |\<in>| owned_fset t (Payer (item m))" "i \<noteq> ID (item m)" for i
    using that by (auto simp: b3)
  have keep_tm: "sm_Has (tm t') i" if "sm_Has (tm t) i" "i \<noteq> ID (item m)" "i |\<notin>| A" for i
  proof -
    from that(1) obtain e' where "e' \<in> set (tm t)" "ID (item e') = i" by (auto simp: sm_Has_iff)
    with that(2,3) have "e' \<in> set (tm t')" by (auto simp: b5)
    with \<open>ID (item e') = i\<close> show ?thesis by (auto simp: sm_Has_iff)
  qed
  have keep_owned: "i |\<in>| owned_fset t' p"
    if "i |\<in>| owned_fset t p" "i \<noteq> ID (item m)" "\<not> (ra \<and> p = Payer (item m))" for i p
    using that by (auto simp: b6)
  have n1: "\<forall>e' \<in> set (pm t'). sm_Has (tm t') (ID (item e'))
      \<and> ID (item e') |\<in>| owned_fset t' (Payer (item e'))"
  proof
    fix e' assume "e' \<in> set (pm t')"
    then have e': "e' \<in> set (pm t)" "ID (item e') \<noteq> ID (item m)" "ID (item e') |\<notin>| A"
      by (auto simp: b4)
    from k e'(1) have ke: "sm_Has (tm t) (ID (item e'))"
      "ID (item e') |\<in>| owned_fset t (Payer (item e'))" by auto
    have "\<not> (ra \<and> Payer (item e') = Payer (item m))"
    proof
      assume "ra \<and> Payer (item e') = Payer (item m)"
      with ke(2) e'(2) have "ID (item e') |\<in>| A" using A_all by simp
      with e'(3) show False by simp
    qed
    with keep_tm[OF ke(1) e'(2,3)] keep_owned[OF ke(2) e'(2)]
    show "sm_Has (tm t') (ID (item e')) \<and> ID (item e') |\<in>| owned_fset t' (Payer (item e'))"
      by simp
  qed
  have n2: "\<forall>v \<in> set tr'.
      v_restore v \<and> (\<forall>w \<in> set tr'. v_removeAcct w \<longrightarrow> Payer (fst w) \<noteq> Payer (fst v))
      \<longrightarrow> sm_Has (tm t') (ID (fst v)) \<and> ID (fst v) |\<in>| owned_fset t' (Payer (fst v))"
  proof (intro ballI impI, elim conjE)
    fix v assume v: "v \<in> set tr'" and vr: "v_restore v"
      and nra: "\<forall>w \<in> set tr'. v_removeAcct w \<longrightarrow> Payer (fst w) \<noteq> Payer (fst v)"
    from nra have nra': "\<forall>w \<in> set tr. v_removeAcct w \<longrightarrow> Payer (fst w) \<noteq> Payer (fst v)"
      by (simp add: b2)
    from nra have new: "ra \<longrightarrow> Payer (item m) \<noteq> Payer (fst v)"
      by (simp add: b2)
    from v consider "v \<in> set tr" | "v = (item m, c, r, ra, fe)" by (auto simp: b2)
    then show "sm_Has (tm t') (ID (fst v)) \<and> ID (fst v) |\<in>| owned_fset t' (Payer (fst v))"
    proof cases
      case 1
      with h vr nra' have hv: "sm_Has (tm t) (ID (fst v))"
        "ID (fst v) |\<in>| owned_fset t (Payer (fst v))" by auto
      from i4 1 have np: "\<not> sm_Has (pm t) (ID (fst v))" and "fst v \<in> item ` set (pm th0)"
        by auto
      then obtain e0 where e0: "e0 \<in> set (pm th0)" "fst v = item e0" by auto
      from np b1 have d: "ID (fst v) \<noteq> ID (item m)" by (auto simp: sm_Has_iff)
      have nA: "ID (fst v) |\<notin>| A"
      proof
        assume a: "ID (fst v) |\<in>| A"
        with A_sub have "ID (fst v) |\<in>| owned_fset t (Payer (item m))" by auto
        with i2 have "ID (item e0) |\<in>| owned_fset th0 (Payer (item m))"
          using e0(2) by auto
        with wf e0 have "Payer (item m) = Payer (fst v)" by (auto simp: pm_wellformed_def)
        with new A_ra[OF a] show False by simp
      qed
      have "\<not> (ra \<and> Payer (fst v) = Payer (item m))" using new by auto
      with keep_tm[OF hv(1) d nA] keep_owned[OF hv(2) d] show ?thesis by simp
    next
      case 2
      with vr have r by simp
      from new 2 have "\<not> ra" by simp
      then have "A = {||}" by (simp add: b3)
      with k b1 \<open>r\<close> \<open>\<not> ra\<close> show ?thesis by (simp add: 2 b5 b6)
    qed
  qed
  show ?thesis unfolding restore_inv_def by (intro conjI n1 n2)
qed

lemma build_loop_build_inv:
  assumes "build_loop f th [] [] = (th1, tr, rs, err)"
  shows "build_inv th th1 tr rs"
proof (rule build_loop_invariant[OF assms, where I = "build_inv th"])
  show "build_inv th th [] []" by (simp add: build_inv_def)
qed (rule build_inv_step)

lemma build_loop_restore_inv:
  assumes "build_loop f th [] [] = (th1, tr, rs, err)" and wf: "pm_wellformed th"
  shows "restore_inv th1 tr"
proof -
  have "build_inv th th1 tr rs \<and> restore_inv th1 tr"
  proof (rule build_loop_invariant[OF assms(1),
        where I = "\<lambda>t tr rs. build_inv th t tr rs \<and> restore_inv t tr"])
    show "build_inv th th [] [] \<and> restore_inv th []"
      using wf by (simp add: build_inv_def restore_inv_def pm_wellformed_def)
  next
    fix t tr rs t' tr' rs' stop e
    assume "build_inv th t tr rs \<and> restore_inv t tr" "pm t \<noteq> []"
      "build_step f t tr rs = (t', tr', rs', stop, e)"
    then show "build_inv th t' tr' rs' \<and> restore_inv t' tr'"
      using build_inv_step restore_inv_step[OF wf] by blast
  qed
  then show ?thesis by simp
qed

lemma sm_ids_foldl_sm_Add:
  "sm_ids (foldl (\<lambda>q x. sm_Add g x q) q xs) = sm_ids q \<union> ID ` set xs"
  by (induction xs arbitrary: q) (auto simp: sm_Add_def sm_ids_def)

lemma Build_fields:
  assumes "build_loop f th [] [] = (th1, tr, rs, err)"
  shows "tm (fst (Build f th)) = tm th1" "owned_fset (fst (Build f th)) = owned_fset th1"
    "sm_Has (pm (fst (Build f th))) i \<longleftrightarrow> sm_Has (pm th1) i \<or> i \<in> ID ` set rs"
  by (simp_all add: Build_def assms owned_fset_def fun_eq_iff sm_Has_def sm_ids_foldl_sm_Add)

text \<open>
  The states the loop of \<open>Build\<close> passes through, one after each iteration. The source
  does not keep them; the function follows the recursion of \<open>build_loop\<close>.
\<close>

function build_states :: "callback \<Rightarrow> Mempool \<Rightarrow> (Item \<times> verdict) list \<Rightarrow> Item list
    \<Rightarrow> Mempool list" where
  "build_states f th tr restorableItems =
     (if sm_Len (pm th) > 0 then
        (case build_step f th tr restorableItems of
           (th', tr', restorable', stop, fErr) \<Rightarrow>
             th' # (if stop then [] else build_states f th' tr' restorable'))
      else [])"
  by pat_completeness auto

termination build_states
  apply (relation "measure (\<lambda>(f, th, tr, rs). length (pm th))")
   apply simp
  apply (simp add: sm_Len_def)
  apply (metis build_step_decreases)
  done

declare build_states.simps [simp del]

text \<open>\<open>shrinks_to t t'\<close>: the time queue and every payer's id set of \<open>t'\<close> are within those of \<open>t\<close>.\<close>

definition shrinks_to :: "Mempool \<Rightarrow> Mempool \<Rightarrow> bool" where
  "shrinks_to t t' \<longleftrightarrow> set (tm t') \<subseteq> set (tm t) \<and> (\<forall>p. owned_fset t' p |\<subseteq>| owned_fset t p)"

lemma shrinks_to_refl [simp]: "shrinks_to t t"
  by (simp add: shrinks_to_def)

lemma shrinks_to_trans: "shrinks_to a b \<Longrightarrow> shrinks_to b c \<Longrightarrow> shrinks_to a c"
  unfolding shrinks_to_def by (meson order_trans)

lemma build_step_shrinks:
  assumes ne: "pm t \<noteq> []" and s: "build_step f t tr rs = (t', tr', rs', stop, e)"
  shows "shrinks_to t t'"
proof (rule build_step_result[OF ne s])
  fix m c r ra fe A
  assume b5: "tm t' = sm_RemoveAll A (if r then tm t else sm_Remove (ID (item m)) (tm t))"
    and b6: "\<And>p. owned_fset t' p =
        (if ra \<and> p = Payer (item m) then {||}
         else if \<not> r \<and> p = Payer (item m) then owned_fset t p |-| {|ID (item m)|}
         else owned_fset t p)"
  have "set (tm t') \<subseteq> set (tm t)" by (auto simp: b5)
  moreover have "owned_fset t' p |\<subseteq>| owned_fset t p" for p by (auto simp: b6)
  ultimately show ?thesis by (simp add: shrinks_to_def)
qed

lemma build_states_shrink:
  "\<forall>t \<in> set (t0 # build_states f t0 tr0 rs0). shrinks_to t (fst (build_loop f t0 tr0 rs0))"
proof (induction f t0 tr0 rs0 rule: build_loop.induct)
  case (1 f th tr rs)
  show ?case
  proof (cases "0 < sm_Len (pm th)")
    case False
    then show ?thesis by (simp add: build_loop.simps[of f th] build_states.simps[of f th])
  next
    case True
    obtain th1 tr1 rs1 stop e1 where s: "build_step f th tr rs = (th1, tr1, rs1, stop, e1)"
      by (metis prod_cases5)
    from True have ne: "pm th \<noteq> []" by (auto simp: sm_Len_def)
    note sh = build_step_shrinks[OF ne s]
    show ?thesis
    proof (cases stop)
      case True
      with \<open>0 < sm_Len (pm th)\<close> s sh show ?thesis
        by (simp add: build_loop.simps[of f th] build_states.simps[of f th])
    next
      case False
      from "1.IH"[OF \<open>0 < sm_Len (pm th)\<close> s[symmetric] refl refl refl False]
      have ih: "\<forall>t \<in> set (th1 # build_states f th1 tr1 rs1).
          shrinks_to t (fst (build_loop f th1 tr1 rs1))" .
      then have "shrinks_to th1 (fst (build_loop f th1 tr1 rs1))" by simp
      with sh have "shrinks_to th (fst (build_loop f th1 tr1 rs1))" by (rule shrinks_to_trans)
      with ih False \<open>0 < sm_Len (pm th)\<close> s show ?thesis
        by (simp add: build_loop.simps[of f th] build_states.simps[of f th])
    qed
  qed
qed

lemma throughout:
  assumes "build_loop f th [] [] = (th1, tr, rs, err)"
    and "sm_Has (tm th1) i" and "i |\<in>| owned_fset th1 p"
    and "t \<in> set (th # build_states f th [] [])"
  shows "sm_Has (tm t) i \<and> i |\<in>| owned_fset t p"
proof -
  from build_states_shrink[of th f "[]" "[]"] assms(1,4) have "shrinks_to t th1" by auto
  with assms(2,3) show ?thesis by (auto simp: shrinks_to_def sm_Has_iff)
qed

text \<open>
  C7 as amended. For every callback, every state and every item \<open>x\<close> the loop of \<open>Build\<close>
  hands to the callback: no id is popped twice in the pass and \<open>x\<close> is out of the price
  queue when the loop ends (\<open>th1\<close>). If the answer was \<open>restore\<close>, the mempool was
  well-formed at entry and no item of \<open>x\<close>'s payer was answered \<open>removeAcct\<close> in the
  pass, then \<open>x\<close> is in the time queue and in its payer's set in every state of the
  pass, from the state at entry to the one the loop ends in, and after \<open>Build\<close> it is
  back in the price queue and still in the time queue and in its payer's set. If the
  answer was not \<open>restore\<close>, \<open>x\<close> is in neither queue nor in its payer's set after
  \<open>Build\<close>. Of an item answered \<open>restore\<close> whose payer is also answered \<open>removeAcct\<close>
  the statement says nothing beyond the first sentence.
\<close>

theorem C7_build_restore:
  assumes loop: "build_loop f th [] [] = (th1, tr, rs, err)"
    and x: "(x, cont, restore, removeAcct, fErr) \<in> set tr"
  shows "distinct (map (\<lambda>v. ID (fst v)) tr)
    \<and> \<not> sm_Has (pm th1) (ID x)
    \<and> (restore \<and> pm_wellformed th
          \<and> (\<forall>v \<in> set tr. v_removeAcct v \<longrightarrow> Payer (fst v) \<noteq> Payer x) \<longrightarrow>
        (\<forall>t \<in> set (th # build_states f th [] []).
            sm_Has (tm t) (ID x) \<and> ID x |\<in>| owned_fset t (Payer x))
        \<and> sm_Has (tm th1) (ID x) \<and> ID x |\<in>| owned_fset th1 (Payer x)
        \<and> sm_Has (pm (fst (Build f th))) (ID x)
        \<and> sm_Has (tm (fst (Build f th))) (ID x)
        \<and> ID x |\<in>| owned_fset (fst (Build f th)) (Payer x))
    \<and> (\<not> restore \<longrightarrow>
        \<not> sm_Has (pm (fst (Build f th))) (ID x)
        \<and> \<not> sm_Has (tm (fst (Build f th))) (ID x)
        \<and> ID x |\<notin>| owned_fset (fst (Build f th)) (Payer x))"
proof -
  let ?v = "(x, cont, restore, removeAcct, fErr)"
  note bf = Build_fields[OF loop]
  from build_loop_build_inv[OF loop]
  have d: "distinct (map (\<lambda>v. ID (fst v)) tr)"
    and i4: "\<forall>v \<in> set tr. \<not> sm_Has (pm th1) (ID (fst v))"
    and i5: "\<forall>v \<in> set tr. \<not> v_restore v \<longrightarrow>
            \<not> sm_Has (tm th1) (ID (fst v)) \<and> ID (fst v) |\<notin>| owned_fset th1 (Payer (fst v))"
    and i6: "set rs = fst ` {v \<in> set tr. v_restore v}"
    by (simp_all add: build_inv_def)
  from i4 x have p1: "\<not> sm_Has (pm th1) (ID x)" by force
  have r1: "sm_Has (pm (fst (Build f th))) (ID x)" if restore
  proof -
    from x that have "x \<in> set rs" unfolding i6 by force
    then show ?thesis by (simp add: bf(3))
  qed
  have r2: "(\<forall>t \<in> set (th # build_states f th [] []).
            sm_Has (tm t) (ID x) \<and> ID x |\<in>| owned_fset t (Payer x))
        \<and> sm_Has (tm th1) (ID x) \<and> ID x |\<in>| owned_fset th1 (Payer x)
        \<and> sm_Has (pm (fst (Build f th))) (ID x)
        \<and> sm_Has (tm (fst (Build f th))) (ID x)
        \<and> ID x |\<in>| owned_fset (fst (Build f th)) (Payer x)"
    if restore "pm_wellformed th"
      "\<forall>v \<in> set tr. v_removeAcct v \<longrightarrow> Payer (fst v) \<noteq> Payer x"
  proof -
    from build_loop_restore_inv[OF loop that(2)]
    have "\<forall>v \<in> set tr.
           v_restore v \<and> (\<forall>w \<in> set tr. v_removeAcct w \<longrightarrow> Payer (fst w) \<noteq> Payer (fst v))
           \<longrightarrow> sm_Has (tm th1) (ID (fst v)) \<and> ID (fst v) |\<in>| owned_fset th1 (Payer (fst v))"
      by (simp add: restore_inv_def)
    from bspec[OF this x] that(1,3)
    have e: "sm_Has (tm th1) (ID x)" "ID x |\<in>| owned_fset th1 (Payer x)" by simp_all
    have "\<forall>t \<in> set (th # build_states f th [] []).
            sm_Has (tm t) (ID x) \<and> ID x |\<in>| owned_fset t (Payer x)"
      using throughout[OF loop e] by blast
    with e r1[OF that(1)] show ?thesis by (simp add: bf(1,2))
  qed
  have c1: "\<not> sm_Has (pm (fst (Build f th))) (ID x)
        \<and> \<not> sm_Has (tm (fst (Build f th))) (ID x)
        \<and> ID x |\<notin>| owned_fset (fst (Build f th)) (Payer x)" if "\<not> restore"
  proof -
    from bspec[OF i5 x] that
    have c: "\<not> sm_Has (tm th1) (ID x)" "ID x |\<notin>| owned_fset th1 (Payer x)" by simp_all
    have "ID x \<notin> ID ` set rs"
    proof
      assume "ID x \<in> ID ` set rs"
      then obtain w where w: "w \<in> set tr" "v_restore w" "ID (fst w) = ID x"
        unfolding i6 by auto
      from d have "inj_on (\<lambda>v. ID (fst v)) (set tr)" by (simp add: distinct_map)
      from inj_onD[OF this _ w(1) x] w(3) have "w = ?v" by simp
      with w(2) that show False by simp
    qed
    with p1 c show ?thesis by (simp add: bf)
  qed
  from d p1 r2 c1 show ?thesis by blast
qed

text \<open>
  Scenario S6: three items of prices 9, 7 and 5, and a callback that restores the first
  item it sees and consumes the others.
\<close>

definition itemC :: Item where
  "itemC = \<lparr>ID = 4, Payer = ''Q'', UnitPrice = 5, Expiry = 300\<rparr>"

definition mempoolS6 :: Mempool where
  "mempoolS6 = Add (New 10 5 []) [itemB, itemA, itemC]"

lemma mempoolS6_eq:
  "mempoolS6 = \<lparr>maxSize = 10, maxPayerSize = 5,
      pm = [\<lparr>item = itemB, score = 9\<rparr>, \<lparr>item = itemA, score = 7\<rparr>, \<lparr>item = itemC, score = 5\<rparr>],
      tm = [\<lparr>item = itemB, score = 200\<rparr>, \<lparr>item = itemA, score = 100\<rparr>,
            \<lparr>item = itemC, score = 300\<rparr>],
      owned = [''P'' \<mapsto> {|1, 2|}, ''Q'' \<mapsto> {|4|}], exemptPayers = {||}, leasedItems = None\<rparr>"
  by (simp add: mempoolS6_def mempool_defs queue_defs itemA_def itemB_def itemC_def)

definition restoreFirst :: callback where
  "restoreFirst h x = (True, h = [], False, None)"

text \<open>The callback that answers \<open>restore\<close> and \<open>removeAcct\<close> together.\<close>

definition restoreAndRemove :: callback where
  "restoreAndRemove h x = (True, True, True, None)"

lemma build_loop_S6:
  "build_loop restoreFirst mempoolS6 [] [] =
     (mempoolS6\<lparr>pm := [], tm := [\<lparr>item = itemB, score = 200\<rparr>], owned := [''P'' \<mapsto> {|2|}]\<rparr>,
      [(itemB, True, True, False, None), (itemA, True, False, False, None),
       (itemC, True, False, False, None)],
      [itemB], None)"
  by (simp add: mempoolS6_eq build_loop.simps mempool_defs queue_defs restoreFirst_def
      itemA_def itemB_def itemC_def)

lemma build_loop_A:
  "build_loop restoreAndRemove mempoolA [] [] =
     (mempoolA\<lparr>pm := [], tm := [], owned := Map.empty\<rparr>,
      [(itemA, True, True, True, None)], [itemA], None)"
  by (simp add: mempoolA_eq build_loop.simps mempool_defs queue_defs restoreAndRemove_def itemA_def)

text \<open>
  The claim C7 fails on the source when the callback also answers \<open>removeAcct\<close>: the
  item answered \<open>restore\<close> was in the time queue and in \<open>owned[P]\<close>, and after the pass it
  is in neither, because \<open>removeAccount\<close> (mempool.go:374-378) took it out.
\<close>

theorem C7_restore_with_remove_account_counterexample:
  "snd (build_loop restoreAndRemove mempoolA [] []) =
      ([(itemA, True, True, True, None)], [itemA], None)
    \<and> sm_Has (tm mempoolA) (ID itemA)
    \<and> \<not> sm_Has (tm (fst (Build restoreAndRemove mempoolA))) (ID itemA)
    \<and> owned (fst (Build restoreAndRemove mempoolA)) (Payer itemA) = None"
  by (simp add: build_loop_A Build_def) (simp add: mempoolA_eq queue_defs itemA_def)

theorem C7_build_restore_witness:
  "pm_wellformed mempoolS6
    \<and> Len (fst (Build restoreFirst mempoolS6)) = 1
    \<and> sm_Has (pm (fst (Build restoreFirst mempoolS6))) (ID itemB)
    \<and> sm_Has (tm (fst (Build restoreFirst mempoolS6))) (ID itemB)
    \<and> ID itemB |\<in>| owned_fset (fst (Build restoreFirst mempoolS6)) (Payer itemB)
    \<and> \<not> sm_Has (tm (fst (Build restoreFirst mempoolS6))) (ID itemA)
    \<and> ID itemA |\<notin>| owned_fset (fst (Build restoreFirst mempoolS6)) (Payer itemA)"
proof -
  have wf: "pm_wellformed mempoolS6"
    by (simp add: pm_wellformed_def mempoolS6_eq queue_defs owned_fset_def
        itemA_def itemB_def itemC_def)
  have nra: "\<forall>v \<in> set [(itemB, True, True, False, None), (itemA, True, False, False, None),
       (itemC, True, False, False, None)]. v_removeAcct v \<longrightarrow> Payer (fst v) \<noteq> Payer itemB"
    by simp
  have len: "Len (fst (Build restoreFirst mempoolS6)) = 1"
    by (simp add: Build_def build_loop_S6 Len_def queue_defs)
  from C7_build_restore[OF build_loop_S6, of itemB True True False None] wf nra
  have b: "sm_Has (pm (fst (Build restoreFirst mempoolS6))) (ID itemB)
    \<and> sm_Has (tm (fst (Build restoreFirst mempoolS6))) (ID itemB)
    \<and> ID itemB |\<in>| owned_fset (fst (Build restoreFirst mempoolS6)) (Payer itemB)"
    by simp
  from C7_build_restore[OF build_loop_S6, of itemA True False False None]
  have a: "\<not> sm_Has (tm (fst (Build restoreFirst mempoolS6))) (ID itemA)
    \<and> ID itemA |\<notin>| owned_fset (fst (Build restoreFirst mempoolS6)) (Payer itemA)"
    by simp
  from wf len a b show ?thesis by simp
qed


end
